theory Spec2Isabelle
  imports Main "HOL-Library.List_Lexorder"
begin

section \<open>Pretty Drive: the folder/file tree of \<^verbatim>\<open>main.py\<close>\<close>

text \<open>
  The handlers of \<^verbatim>\<open>main.py\<close> are embedded as functions on an explicit state: the two
  MongoDB collections \<^verbatim>\<open>db["folder"]\<close> and \<^verbatim>\<open>db["fileitem"]\<close>, and the upload
  directory on disk. A raised \<^verbatim>\<open>HTTPException\<close> or an unhandled exception is an error
  value. The \<^verbatim>\<open>while\<close> loop of the breadcrumbs has no bound of any kind, so it is a partial
  function whose value \<open>None\<close> is a loop that never ends; the recursion of the folder
  deletion is cut by the interpreter's recursion limit, which the model takes as a
  parameter.
\<close>

subsection \<open>Strings and identifiers\<close>

text \<open>
  A Python \<^verbatim>\<open>str\<close> is a sequence of Unicode code points; a code point is a natural number
  (below \<open>0x110000\<close> in a \<^verbatim>\<open>str\<close>; no function here tells the larger numbers apart from
  other code points that are neither whitespace nor ASCII). \<open>ustr\<close> reads an ASCII literal
  as such a string. File contents are bytes.
\<close>

type_synonym unicode = "nat list"

type_synonym bytes = string

definition ustr :: "string \<Rightarrow> unicode" where
  "ustr s = map of_char s"

text \<open>
  \<^verbatim>\<open>str.isspace\<close> of one code point, which decides what \<^verbatim>\<open>str.strip()\<close> removes: the ASCII
  controls 9 to 13 and 28 to 31, the space, U+0085, U+00A0, U+1680, U+2000 to U+200A,
  U+2028, U+2029, U+202F, U+205F and U+3000.
\<close>

definition isspace :: "nat \<Rightarrow> bool" where
  "isspace c =
     ((9 \<le> c \<and> c \<le> 13) \<or> (28 \<le> c \<and> c \<le> 32) \<or> c = 133 \<or> c = 160 \<or> c = 5760
      \<or> (8192 \<le> c \<and> c \<le> 8202) \<or> c = 8232 \<or> c = 8233 \<or> c = 8239 \<or> c = 8287
      \<or> c = 12288)"

definition strip :: "unicode \<Rightarrow> unicode" where
  "strip s = rev (dropWhile isspace (rev (dropWhile isspace s)))"

text \<open>
  \<^verbatim>\<open>bson.ObjectId\<close> of a string, as the library does it: a string of any other length than
  24 raises \<^verbatim>\<open>InvalidId\<close>; a string of length 24 is handed to \<^verbatim>\<open>bytes.fromhex\<close>, which
  reads pairs of hexadecimal digits and skips ASCII whitespace (9 to 13 and the space) in
  front of a pair, and raises on anything else. The ObjectId holds the bytes read, and
  \<^verbatim>\<open>str\<close> of an ObjectId prints them as lower-case hexadecimal digits. An ObjectId is
  represented by that printed string: 24 digits for the twelve bytes of an id the store
  generates, fewer when the parsed string held whitespace.
\<close>

datatype ObjectId = OID unicode

fun str :: "ObjectId \<Rightarrow> unicode" where
  "str (OID h) = h"

definition is_hex :: "nat \<Rightarrow> bool" where
  "is_hex c = ((48 \<le> c \<and> c \<le> 57) \<or> (65 \<le> c \<and> c \<le> 70) \<or> (97 \<le> c \<and> c \<le> 102))"

definition lower_hex :: "nat \<Rightarrow> nat" where
  "lower_hex c = (if 65 \<le> c \<and> c \<le> 70 then c + 32 else c)"

definition ascii_space :: "nat \<Rightarrow> bool" where
  "ascii_space c = ((9 \<le> c \<and> c \<le> 13) \<or> c = 32)"

fun fromhex :: "unicode \<Rightarrow> unicode option" where
  "fromhex [] = Some []"
| "fromhex [c] = (if ascii_space c then Some [] else None)"
| "fromhex (c # b # cs) =
     (if ascii_space c then fromhex (b # cs)
      else if is_hex c \<and> is_hex b
        then map_option (\<lambda>h. lower_hex c # lower_hex b # h) (fromhex cs)
        else None)"

definition ObjectId :: "unicode \<Rightarrow> ObjectId option" where
  "ObjectId s = (if length s = 24 then map_option OID (fromhex s) else None)"

subsection \<open>Documents, the store and the disk\<close>

type_synonym datetime = nat

text \<open>A document of \<^verbatim>\<open>db["folder"]\<close>, with the keys \<^verbatim>\<open>create_folder\<close> writes.\<close>

record folder_doc =
  f_id :: ObjectId
  f_name :: unicode
  f_parent_id :: "unicode option"
  f_created_at :: datetime
  f_updated_at :: datetime

text \<open>
  A document of \<^verbatim>\<open>db["fileitem"]\<close>, with the keys \<^verbatim>\<open>upload_file\<close> writes. The handlers read
  \<^verbatim>\<open>storage_path\<close> with \<^verbatim>\<open>doc.get\<close>, so the key may be absent (\<open>None\<close>).
\<close>

record file_doc =
  x_id :: ObjectId
  x_name :: unicode
  x_parent_id :: "unicode option"
  x_size :: nat
  x_mime_type :: unicode
  x_storage_path :: "unicode option"
  x_created_at :: datetime
  x_updated_at :: datetime

text \<open>
  Modelled from the spec: the document store behind \<^verbatim>\<open>db\<close> (module \<^verbatim>\<open>database\<close>, a pymongo
  handle): two collections of records in insertion order, with \<open>find\<close> by a field,
  point lookup, \<open>insert_one\<close>, \<open>find_one_and_update\<close> and \<open>delete_one\<close> (the first
  record that matches). The \<open>journal\<close> lists the \<^verbatim>\<open>delete_one\<close> calls the store has served,
  oldest first; no handler reads it.
\<close>

datatype del_event = DelFile ObjectId | DelFolder ObjectId

record database =
  folder :: "folder_doc list"
  fileitem :: "file_doc list"
  journal :: "del_event list"

text \<open>
  The upload directory, which holds files only (the program creates no directory in it):
  the bytes stored under each path, the paths on which \<^verbatim>\<open>os.remove\<close> raises and the paths
  on which \<^verbatim>\<open>open\<close> for writing raises (a permission error, a name the disk refuses).
\<close>

record filesystem =
  content :: "unicode \<rightharpoonup> bytes"
  undeletable :: "unicode set"
  unwritable :: "unicode set"

datatype error = HTTPException nat string | InvalidId | OSError | ValueError | RecursionError

datatype item_type = File | Folder

definition path_exists :: "filesystem \<Rightarrow> unicode \<Rightarrow> bool" where
  "path_exists fs p = (content fs p \<noteq> None)"

definition os_remove :: "unicode \<Rightarrow> filesystem \<Rightarrow> error + filesystem" where
  "os_remove p fs =
     (if \<not> path_exists fs p \<or> p \<in> undeletable fs then Inl OSError
      else Inr (fs\<lparr>content := (content fs)(p := None)\<rparr>))"

fun delete_first :: "('a \<Rightarrow> bool) \<Rightarrow> 'a list \<Rightarrow> 'a list" where
  "delete_first P [] = []"
| "delete_first P (x # xs) = (if P x then xs else x # delete_first P xs)"

definition find_one_folder :: "database \<Rightarrow> ObjectId option \<Rightarrow> folder_doc option" where
  "find_one_folder d i = (case i of None \<Rightarrow> None | Some k \<Rightarrow> find (\<lambda>f. f_id f = k) (folder d))"

definition find_one_file :: "database \<Rightarrow> ObjectId option \<Rightarrow> file_doc option" where
  "find_one_file d i = (case i of None \<Rightarrow> None | Some k \<Rightarrow> find (\<lambda>x. x_id x = k) (fileitem d))"

definition find_folders :: "database \<Rightarrow> unicode option \<Rightarrow> folder_doc list" where
  "find_folders d p = filter (\<lambda>f. f_parent_id f = p) (folder d)"

definition find_files :: "database \<Rightarrow> unicode option \<Rightarrow> file_doc list" where
  "find_files d p = filter (\<lambda>x. x_parent_id x = p) (fileitem d)"

definition delete_one_folder :: "ObjectId \<Rightarrow> database \<Rightarrow> database" where
  "delete_one_folder k d =
     d\<lparr>folder := delete_first (\<lambda>f. f_id f = k) (folder d), journal := journal d @ [DelFolder k]\<rparr>"

definition delete_one_file :: "ObjectId \<Rightarrow> database \<Rightarrow> database" where
  "delete_one_file k d =
     d\<lparr>fileitem := delete_first (\<lambda>x. x_id x = k) (fileitem d), journal := journal d @ [DelFile k]\<rparr>"

subsection \<open>Helpers\<close>

text \<open>\<^verbatim>\<open>oid\<close>: a falsy string gives \<^verbatim>\<open>None\<close>, one that \<^verbatim>\<open>ObjectId\<close> refuses the 400 error.\<close>

definition oid :: "unicode option \<Rightarrow> error + ObjectId option" where
  "oid id_str =
     (case id_str of
        None \<Rightarrow> Inr None
      | Some s \<Rightarrow>
          if s = [] then Inr None
          else (case ObjectId s of
                  None \<Rightarrow> Inl (HTTPException 400 ''Invalid id'')
                | Some k \<Rightarrow> Inr (Some k)))"

text \<open>\<^verbatim>\<open>x or None\<close> on an optional string.\<close>

definition or_None :: "unicode option \<Rightarrow> unicode option" where
  "or_None p = (case p of None \<Rightarrow> None | Some s \<Rightarrow> if s = [] then None else Some s)"

datatype response =
    Listing "folder_doc list" "file_doc list"
  | FolderDoc folder_doc
  | FileDoc file_doc
  | FileResponse bytes unicode unicode
  | Status string
  | Breadcrumbs "(unicode \<times> unicode) list"

text \<open>
  \<^verbatim>\<open>serialize\<close> renders \<^verbatim>\<open>_id\<close> as its string and the two dates in ISO format; it changes
  no other key, so a serialised document is represented by the document itself.
  \<open>FileResponse bytes media_type filename\<close> carries the bytes found under the path.
\<close>

definition not_configured :: error where
  "not_configured = HTTPException 500 ''Database not configured''"

fun update_first :: "('a \<Rightarrow> bool) \<Rightarrow> ('a \<Rightarrow> 'a) \<Rightarrow> 'a list \<Rightarrow> 'a list" where
  "update_first P g [] = []"
| "update_first P g (x # xs) = (if P x then g x # xs else x # update_first P g xs)"

subsection \<open>Listing, creating, uploading, downloading, renaming\<close>

definition list_items :: "database option \<Rightarrow> unicode option \<Rightarrow> error + response" where
  "list_items db parent_id =
     (case db of
        None \<Rightarrow> Inl not_configured
      | Some d \<Rightarrow>
          let filt = or_None parent_id
          in Inr (Listing (sort_key f_name (find_folders d filt))
                          (sort_key x_name (find_files d filt))))"

text \<open>
  \<open>new_id\<close> is the identifier the store generates for the inserted document and \<open>now\<close>
  the clock reading.
\<close>

definition create_folder ::
  "database option \<Rightarrow> ObjectId \<Rightarrow> datetime \<Rightarrow> unicode \<Rightarrow> unicode option
     \<Rightarrow> error + response \<times> database" where
  "create_folder db new_id now name parent_id =
     (case db of
        None \<Rightarrow> Inl not_configured
      | Some d \<Rightarrow>
          let doc = \<lparr>f_id = new_id, f_name = strip name, f_parent_id = or_None parent_id,
                     f_created_at = now, f_updated_at = now\<rparr>
          in if f_name doc = [] then Inl (HTTPException 400 ''Name required'')
             else Inr (FolderDoc doc, d\<lparr>folder := folder d @ [doc]\<rparr>))"

text \<open>
  \<open>dest_path\<close> is the path \<^verbatim>\<open>os.path.join(UPLOAD_DIR, f"{timestamp}_{safe_name}")\<close>, with
  \<open>upload_dir\<close> and the printed timestamp \<open>stamp\<close> given.
\<close>

definition dest_path :: "unicode \<Rightarrow> unicode \<Rightarrow> unicode \<Rightarrow> unicode" where
  "dest_path upload_dir stamp safe_name = upload_dir @ ustr ''/'' @ stamp @ ustr ''_'' @ safe_name"

text \<open>
  \<^verbatim>\<open>open(dest_path, "wb")\<close> followed by the write. \<^verbatim>\<open>open\<close> raises \<^verbatim>\<open>ValueError\<close> on a path
  with a NUL, and an \<^verbatim>\<open>OSError\<close> when the file name holds a slash (it then names a
  directory that the upload directory does not have) or when the disk refuses the path.
\<close>

definition open_write :: "unicode \<Rightarrow> unicode \<Rightarrow> bytes \<Rightarrow> filesystem \<Rightarrow> error + filesystem" where
  "open_write path safe_name data fs =
     (if 0 \<in> set path then Inl ValueError
      else if 47 \<in> set safe_name \<or> path \<in> unwritable fs then Inl OSError
      else Inr (fs\<lparr>content := (content fs)(path \<mapsto> data)\<rparr>))"

definition upload_file ::
  "database option \<Rightarrow> filesystem \<Rightarrow> unicode \<Rightarrow> unicode \<Rightarrow> ObjectId \<Rightarrow> datetime
     \<Rightarrow> unicode option \<Rightarrow> unicode \<Rightarrow> bytes \<Rightarrow> unicode option
     \<Rightarrow> error + response \<times> database \<times> filesystem" where
  "upload_file db fs upload_dir stamp new_id now parent_id filename data content_type =
     (case db of
        None \<Rightarrow> Inl not_configured
      | Some d \<Rightarrow>
          let safe_name = filename;
              path = dest_path upload_dir stamp safe_name
          in (case open_write path safe_name data fs of
                Inl e \<Rightarrow> Inl e
              | Inr fs' \<Rightarrow>
                  let size = length data;
                      doc = \<lparr>x_id = new_id, x_name = safe_name, x_parent_id = or_None parent_id,
                             x_size = size,
                             x_mime_type = (case or_None content_type of
                                              None \<Rightarrow> ustr ''application/octet-stream''
                                            | Some m \<Rightarrow> m),
                             x_storage_path = Some path, x_created_at = now, x_updated_at = now\<rparr>
                  in Inr (FileDoc doc, d\<lparr>fileitem := fileitem d @ [doc]\<rparr>, fs')))"

definition download_file :: "database option \<Rightarrow> filesystem \<Rightarrow> unicode \<Rightarrow> error + response" where
  "download_file db fs file_id =
     (case db of
        None \<Rightarrow> Inl not_configured
      | Some d \<Rightarrow>
          (case oid (Some file_id) of
             Inl e \<Rightarrow> Inl e
           | Inr k \<Rightarrow>
               (case find_one_file d k of
                  None \<Rightarrow> Inl (HTTPException 404 ''File not found'')
                | Some doc \<Rightarrow>
                    (case or_None (x_storage_path doc) of
                       None \<Rightarrow> Inl (HTTPException 404 ''Stored file missing'')
                     | Some path \<Rightarrow>
                         (case content fs path of
                            None \<Rightarrow> Inl (HTTPException 404 ''Stored file missing'')
                          | Some data \<Rightarrow>
                              Inr (FileResponse data (x_mime_type doc) (x_name doc)))))))"

definition rename_item ::
  "database option \<Rightarrow> datetime \<Rightarrow> unicode \<Rightarrow> item_type \<Rightarrow> unicode
     \<Rightarrow> error + response \<times> database" where
  "rename_item db now item_id type name =
     (case db of
        None \<Rightarrow> Inl not_configured
      | Some d \<Rightarrow>
          let new_name = strip name
          in if new_name = [] then Inl (HTTPException 400 ''Name required'')
             else (case oid (Some item_id) of
                     Inl e \<Rightarrow> Inl e
                   | Inr k \<Rightarrow>
                       (case type of
                          File \<Rightarrow>
                            (case find_one_file d k of
                               None \<Rightarrow> Inl (HTTPException 404 ''Item not found'')
                             | Some doc \<Rightarrow>
                                 let set_doc = (\<lambda>x. x\<lparr>x_name := new_name, x_updated_at := now\<rparr>)
                                 in Inr (FileDoc (set_doc doc),
                                         d\<lparr>fileitem :=
                                              update_first (\<lambda>x. Some (x_id x) = k) set_doc (fileitem d)\<rparr>))
                        | Folder \<Rightarrow>
                            (case find_one_folder d k of
                               None \<Rightarrow> Inl (HTTPException 404 ''Item not found'')
                             | Some doc \<Rightarrow>
                                 let set_doc = (\<lambda>f. f\<lparr>f_name := new_name, f_updated_at := now\<rparr>)
                                 in Inr (FolderDoc (set_doc doc),
                                         d\<lparr>folder :=
                                              update_first (\<lambda>f. Some (f_id f) = k) set_doc (folder d)\<rparr>)))))"

subsection \<open>Deleting\<close>

text \<open>
  The \<^verbatim>\<open>try\<close> block of both delete paths: the blob is removed when the document has a
  path and the path exists; an exception of \<^verbatim>\<open>os.remove\<close> is swallowed.
\<close>

definition remove_from_disk :: "unicode option \<Rightarrow> filesystem \<Rightarrow> filesystem" where
  "remove_from_disk storage_path fs =
     (case or_None storage_path of
        None \<Rightarrow> fs
      | Some p \<Rightarrow>
          if path_exists fs p
          then (case os_remove p fs of Inl e \<Rightarrow> fs | Inr fs' \<Rightarrow> fs')
          else fs)"

type_synonym state = "database \<times> filesystem"

text \<open>The body of the first loop of \<^verbatim>\<open>delete_folder_recursive\<close>, for one file document.\<close>

definition delete_file_inside :: "file_doc \<Rightarrow> state \<Rightarrow> state" where
  "delete_file_inside f st =
     (delete_one_file (x_id f) (fst st), remove_from_disk (x_storage_path f) (snd st))"

text \<open>
  A call either returns, or raises with the state as the deletions made so far have left
  it: what the store and the disk hold after an exception is what they held when it was
  raised.
\<close>

datatype 's outcome = Returned 's | Raised error 's

fun state_of :: "'s outcome \<Rightarrow> 's" where
  "state_of (Returned s) = s"
| "state_of (Raised e s) = s"

text \<open>
  A \<^verbatim>\<open>for\<close> loop that an exception of its body leaves. Each loop of
  \<^verbatim>\<open>delete_folder_recursive\<close> runs over the documents its \<^verbatim>\<open>find\<close> returned when the loop
  started.
\<close>

fun for_each :: "('a \<Rightarrow> 's \<Rightarrow> 's outcome) \<Rightarrow> 'a list \<Rightarrow> 's \<Rightarrow> 's outcome" where
  "for_each body [] s = Returned s"
| "for_each body (x # xs) s =
     (case body x s of Returned s' \<Rightarrow> for_each body xs s' | Raised e s' \<Rightarrow> Raised e s')"

text \<open>
  \<^verbatim>\<open>delete_folder_recursive\<close>: the files inside, then every subfolder in turn, then the
  folder itself. The source recurses natively and without a bound of its own, so the
  depth of the recursion is bounded by the interpreter alone: \<open>limit\<close> is the number of
  nested calls of \<^verbatim>\<open>delete_folder_recursive\<close> that the interpreter's recursion limit
  leaves room for when \<^verbatim>\<open>delete_item\<close> makes the first call (the limit less the frames
  in use, less the frames that the store operations of a call need). A call nested deeper
  raises \<^verbatim>\<open>RecursionError\<close> at its first store operation, before it has deleted
  anything: the model raises it as the call is entered. The \<^verbatim>\<open>except\<close> clause of the
  recursion only guards the removal of a blob, so the error ends every enclosing call and
  loop, and the deletions made before it stay.
\<close>

fun delete_folder_recursive :: "nat \<Rightarrow> ObjectId \<Rightarrow> state \<Rightarrow> state outcome" where
  "delete_folder_recursive 0 folder_id st = Raised RecursionError st"
| "delete_folder_recursive (Suc limit) folder_id st =
     (let st1 = fold delete_file_inside (find_files (fst st) (Some (str folder_id))) st
      in (case for_each (\<lambda>sub s. delete_folder_recursive limit (f_id sub) s)
                 (find_folders (fst st1) (Some (str folder_id))) st1 of
            Raised e st2 \<Rightarrow> Raised e st2
          | Returned st2 \<Rightarrow> Returned (delete_one_folder folder_id (fst st2), snd st2)))"

text \<open>
  What \<^verbatim>\<open>delete_item\<close> leaves: \<open>Failed\<close> is an exception raised before anything was
  deleted, \<open>Aborted\<close> an exception that ended the recursive deletion, with the store and
  the disk as it left them, \<open>Done\<close> the answer of a call that came back.
\<close>

datatype result =
    Failed error
  | Aborted error database filesystem
  | Done response database filesystem

definition delete_item ::
  "database option \<Rightarrow> nat \<Rightarrow> filesystem \<Rightarrow> unicode \<Rightarrow> item_type \<Rightarrow> result" where
  "delete_item db limit fs item_id type =
     (case db of
        None \<Rightarrow> Failed not_configured
      | Some d \<Rightarrow>
          (case type of
             File \<Rightarrow>
               (case oid (Some item_id) of
                  Inl e \<Rightarrow> Failed e
                | Inr k \<Rightarrow>
                    (case find_one_file d k of
                       None \<Rightarrow> Failed (HTTPException 404 ''File not found'')
                     | Some doc \<Rightarrow>
                         Done (Status ''ok'') (delete_one_file (x_id doc) d)
                           (remove_from_disk (x_storage_path doc) fs)))
           | Folder \<Rightarrow>
               (case oid (Some item_id) of
                  Inl e \<Rightarrow> Failed e
                | Inr k \<Rightarrow>
                    (case find_one_folder d k of
                       None \<Rightarrow> Failed (HTTPException 404 ''Folder not found'')
                     | Some fdoc \<Rightarrow>
                         (case delete_folder_recursive limit (f_id fdoc) (d, fs) of
                            Raised e st \<Rightarrow> Aborted e (fst st) (snd st)
                          | Returned st \<Rightarrow> Done (Status ''ok'') (fst st) (snd st))))))"

subsection \<open>Breadcrumbs\<close>

text \<open>
  The \<^verbatim>\<open>while current:\<close> loop of \<^verbatim>\<open>get_breadcrumbs\<close>. The parent is looked up with the bare
  \<^verbatim>\<open>ObjectId(pid)\<close>, whose \<^verbatim>\<open>InvalidId\<close> nothing catches. The loop has no bound, so the
  function is partial.
\<close>

partial_function (option) breadcrumbs_loop ::
  "database \<Rightarrow> folder_doc option \<Rightarrow> (unicode \<times> unicode) list
     \<Rightarrow> (error + (unicode \<times> unicode) list) option" where
  "breadcrumbs_loop d current crumbs =
     (case current of
        None \<Rightarrow> Some (Inr crumbs)
      | Some cur \<Rightarrow>
          let crumbs' = crumbs @ [(str (f_id cur), f_name cur)]
          in (case or_None (f_parent_id cur) of
                None \<Rightarrow> Some (Inr crumbs')
              | Some pid \<Rightarrow>
                  (case ObjectId pid of
                     None \<Rightarrow> Some (Inl InvalidId)
                   | Some k \<Rightarrow> breadcrumbs_loop d (find_one_folder d (Some k)) crumbs')))"

definition get_breadcrumbs :: "database option \<Rightarrow> unicode \<Rightarrow> (error + response) option" where
  "get_breadcrumbs db folder_id =
     (case db of
        None \<Rightarrow> Some (Inl not_configured)
      | Some d \<Rightarrow>
          (case oid (Some folder_id) of
             Inl e \<Rightarrow> Some (Inl e)
           | Inr k \<Rightarrow>
               (case breadcrumbs_loop d (find_one_folder d k) [] of
                  None \<Rightarrow> None
                | Some (Inl e) \<Rightarrow> Some (Inl e)
                | Some (Inr crumbs) \<Rightarrow> Some (Inr (Breadcrumbs (rev crumbs))))))"

subsection \<open>Names as the specification wants them stored\<close>

text \<open>A stored name is trimmed when stripping leaves it as it is, and it is not empty.\<close>

definition trimmed :: "unicode \<Rightarrow> bool" where
  "trimmed s = (s \<noteq> [] \<and> strip s = s)"

definition names_ok :: "database \<Rightarrow> bool" where
  "names_ok d = (list_all (\<lambda>f. trimmed (f_name f)) (folder d) \<and> list_all (\<lambda>x. trimmed (x_name x)) (fileitem d))"

subsection \<open>The parent chain of a folder\<close>

text \<open>
  What the breadcrumb claims speak about. \<open>crumb\<close> is the pair of id and name collected
  for a folder. \<open>parent_chain d [f\<^sub>0, f\<^sub>1, \<dots>]\<close>: each folder's parent id is a well-formed
  id that resolves to the next folder of the list, and the last folder has a null or empty
  parent, or a well-formed parent id that resolves to no folder. \<open>chain_ends n d cur\<close>: the
  walk along the parent ids from \<open>cur\<close> stops within \<open>n\<close> steps.
\<close>

definition crumb :: "folder_doc \<Rightarrow> unicode \<times> unicode" where
  "crumb f = (str (f_id f), f_name f)"

fun parent_chain :: "database \<Rightarrow> folder_doc list \<Rightarrow> bool" where
  "parent_chain d [] = False"
| "parent_chain d [f] =
     (case or_None (f_parent_id f) of
        None \<Rightarrow> True
      | Some pid \<Rightarrow> (case ObjectId pid of None \<Rightarrow> False | Some k \<Rightarrow> find_one_folder d (Some k) = None))"
| "parent_chain d (f # g # fs) =
     ((case or_None (f_parent_id f) of
         None \<Rightarrow> False
       | Some pid \<Rightarrow> (case ObjectId pid of None \<Rightarrow> False | Some k \<Rightarrow> find_one_folder d (Some k) = Some g))
      \<and> parent_chain d (g # fs))"

fun chain_ends :: "nat \<Rightarrow> database \<Rightarrow> folder_doc option \<Rightarrow> bool" where
  "chain_ends n d None = True"
| "chain_ends 0 d (Some cur) = False"
| "chain_ends (Suc n) d (Some cur) =
     (case or_None (f_parent_id cur) of
        None \<Rightarrow> True
      | Some pid \<Rightarrow> (case ObjectId pid of None \<Rightarrow> True | Some k \<Rightarrow> chain_ends n d (find_one_folder d (Some k))))"

subsection \<open>Subtrees and the order of a recursive deletion\<close>

text \<open>The store keeps \<^verbatim>\<open>_id\<close> unique within a collection.\<close>

definition unique_ids :: "database \<Rightarrow> bool" where
  "unique_ids d = (distinct (map f_id (folder d)) \<and> distinct (map x_id (fileitem d)))"

text \<open>
  What the claims on recursive deletion speak about, computed on the tree as it is before
  the deletion. \<open>deletion_order n d k\<close> is the depth-first order of the subtree of \<open>k\<close>:
  the files directly in \<open>k\<close>, then for each child folder in turn its whole order, then
  \<open>k\<close> itself. It is defined when the subtree unfolds within depth \<open>n\<close>, which is the case
  for some \<open>n\<close> exactly when no cycle of parent links lies below \<open>k\<close>.
\<close>

fun deletion_order :: "nat \<Rightarrow> database \<Rightarrow> ObjectId \<Rightarrow> del_event list option"
  and deletion_orders :: "nat \<Rightarrow> database \<Rightarrow> folder_doc list \<Rightarrow> del_event list option" where
  "deletion_order 0 d k = None"
| "deletion_order (Suc n) d k =
     (case deletion_orders n d (find_folders d (Some (str k))) of
        None \<Rightarrow> None
      | Some es \<Rightarrow> Some (map (\<lambda>x. DelFile (x_id x)) (find_files d (Some (str k))) @ es @ [DelFolder k]))"
| "deletion_orders n d [] = Some []"
| "deletion_orders n d (c # cs) =
     (case deletion_order n d (f_id c) of
        None \<Rightarrow> None
      | Some e \<Rightarrow> (case deletion_orders n d cs of None \<Rightarrow> None | Some es \<Rightarrow> Some (e @ es)))"

text \<open>\<open>removed evs d d'\<close>: the store \<open>d'\<close> is \<open>d\<close> without the documents named in \<open>evs\<close>,
  and its journal has grown by \<open>evs\<close>.\<close>

definition removed :: "del_event list \<Rightarrow> database \<Rightarrow> database \<Rightarrow> bool" where
  "removed evs d d' =
     (journal d' = journal d @ evs
      \<and> folder d' = filter (\<lambda>f. DelFolder (f_id f) \<notin> set evs) (folder d)
      \<and> fileitem d' = filter (\<lambda>x. DelFile (x_id x) \<notin> set evs) (fileitem d))"



text \<open>
  \<open>in_subtree d k h\<close>: the folder id \<open>h\<close> is reached from \<open>k\<close> by following parent links
  downward (\<open>k\<close> itself included). A parent link is a \<^verbatim>\<open>parent_id\<close> equal to the string
  of the parent's id, which is how \<^verbatim>\<open>delete_folder_recursive\<close> and \<^verbatim>\<open>list_items\<close> look
  children up. A file is in the subtree when its parent is.
\<close>

inductive in_subtree :: "database \<Rightarrow> ObjectId \<Rightarrow> ObjectId \<Rightarrow> bool" for d :: database and k :: ObjectId where
  root: "in_subtree d k k"
| child: "in_subtree d k p \<Longrightarrow> f \<in> set (folder d) \<Longrightarrow> f_parent_id f = Some (str p)
           \<Longrightarrow> in_subtree d k (f_id f)"

definition file_in_subtree :: "database \<Rightarrow> ObjectId \<Rightarrow> file_doc \<Rightarrow> bool" where
  "file_in_subtree d k x = (\<exists>p. x_parent_id x = Some (str p) \<and> in_subtree d k p)"

text \<open>
  No cycle of parent links lies below \<open>k\<close>: no folder of the subtree of \<open>k\<close> is reached
  again from one of its own children.
\<close>

definition cycle_free :: "database \<Rightarrow> ObjectId \<Rightarrow> bool" where
  "cycle_free d k =
     (\<forall>h c. in_subtree d k h \<longrightarrow> c \<in> set (find_folders d (Some (str h)))
        \<longrightarrow> \<not> in_subtree d (f_id c) h)"

text \<open>\<open>frame d k d'\<close>: every document of \<open>d\<close> outside the subtree of \<open>k\<close> is a document of
  \<open>d'\<close>, which has no folder that \<open>d\<close> has not and keeps the ids unique.\<close>

definition frame :: "database \<Rightarrow> ObjectId \<Rightarrow> database \<Rightarrow> bool" where
  "frame d k d' =
     (unique_ids d' \<and> set (folder d') \<subseteq> set (folder d)
      \<and> (\<forall>g \<in> set (folder d). \<not> in_subtree d k (f_id g) \<longrightarrow> g \<in> set (folder d'))
      \<and> (\<forall>x \<in> set (fileitem d). \<not> file_in_subtree d k x \<longrightarrow> x \<in> set (fileitem d')))"


subsection \<open>Small stores and disks for the concrete runs\<close>

definition id_a :: ObjectId where "id_a = OID (ustr ''00000000000000000000000a'')"
definition id_b :: ObjectId where "id_b = OID (ustr ''00000000000000000000000b'')"
definition empty_db :: database where "empty_db = \<lparr>folder = [], fileitem = [], journal = []\<rparr>"
definition empty_disk :: filesystem where "empty_disk = \<lparr>content = Map.empty, undeletable = {}, unwritable = {}\<rparr>"

definition file_a :: file_doc where
  "file_a = \<lparr>x_id = id_a, x_name = ustr ''a.txt'', x_parent_id = None, x_size = 2,
              x_mime_type = ustr ''text/plain'', x_storage_path = Some (ustr ''uploads/1_a.txt''),
              x_created_at = 0, x_updated_at = 0\<rparr>"

definition db_one_file :: database where
  "db_one_file = \<lparr>folder = [], fileitem = [file_a], journal = []\<rparr>"

definition disk_locked :: filesystem where
  "disk_locked = \<lparr>content = [ustr ''uploads/1_a.txt'' \<mapsto> ''hi''], undeletable = {ustr ''uploads/1_a.txt''},
                   unwritable = {}\<rparr>"

definition id_c :: ObjectId where "id_c = OID (ustr ''00000000000000000000000c'')"

definition folder_a :: folder_doc where
  "folder_a = \<lparr>f_id = id_a, f_name = ustr ''A'', f_parent_id = None,
                f_created_at = 0, f_updated_at = 0\<rparr>"
definition folder_b :: folder_doc where
  "folder_b = \<lparr>f_id = id_b, f_name = ustr ''B'', f_parent_id = Some (ustr ''00000000000000000000000a''),
                f_created_at = 0, f_updated_at = 0\<rparr>"
definition folder_c :: folder_doc where
  "folder_c = \<lparr>f_id = id_c, f_name = ustr ''C'', f_parent_id = Some (ustr ''00000000000000000000000b''),
                f_created_at = 0, f_updated_at = 0\<rparr>"

text \<open>Three levels: \<open>A\<close> at the root, \<open>B\<close> in \<open>A\<close>, \<open>C\<close> in \<open>B\<close>.\<close>

definition db_chain :: database where
  "db_chain = \<lparr>folder = [folder_a, folder_b, folder_c], fileitem = [], journal = []\<rparr>"

text \<open>A cycle of two folders: the parent of \<open>A\<close> is \<open>B\<close> and the parent of \<open>B\<close> is \<open>A\<close>.\<close>

definition folder_a_in_b :: folder_doc where
  "folder_a_in_b = folder_a\<lparr>f_parent_id := Some (ustr ''00000000000000000000000b'')\<rparr>"

definition db_cycle :: database where
  "db_cycle = \<lparr>folder = [folder_a_in_b, folder_b], fileitem = [], journal = []\<rparr>"

text \<open>A folder created with the parent id \<open>root\<close>, which is no ObjectId.\<close>

definition folder_bad_parent :: folder_doc where
  "folder_bad_parent = folder_a\<lparr>f_parent_id := Some (ustr ''root'')\<rparr>"

definition db_bad_parent :: database where
  "db_bad_parent = \<lparr>folder = [folder_bad_parent], fileitem = [], journal = []\<rparr>"

text \<open>
  A tree: \<open>A\<close> at the root holds the file \<open>one.txt\<close> and the folders \<open>B\<close> and \<open>D\<close>;
  \<open>B\<close> holds \<open>C\<close>, which holds \<open>two.txt\<close>. Beside the tree, the root folder \<open>E\<close>
  holds \<open>three.txt\<close>.
\<close>

definition id_d :: ObjectId where "id_d = OID (ustr ''00000000000000000000000d'')"

definition id_e :: ObjectId where "id_e = OID (ustr ''00000000000000000000000e'')"

definition id_1 :: ObjectId where "id_1 = OID (ustr ''000000000000000000000001'')"

definition id_2 :: ObjectId where "id_2 = OID (ustr ''000000000000000000000002'')"

definition id_3 :: ObjectId where "id_3 = OID (ustr ''000000000000000000000003'')"

definition folder_d :: folder_doc where
  "folder_d = \<lparr>f_id = id_d, f_name = ustr ''D'', f_parent_id = Some (ustr ''00000000000000000000000a''),
                f_created_at = 0, f_updated_at = 0\<rparr>"

definition folder_e :: folder_doc where
  "folder_e = \<lparr>f_id = id_e, f_name = ustr ''E'', f_parent_id = None,
                f_created_at = 0, f_updated_at = 0\<rparr>"

definition file_1 :: file_doc where
  "file_1 = \<lparr>x_id = id_1, x_name = ustr ''one.txt'', x_parent_id = Some (ustr ''00000000000000000000000a''),
              x_size = 3, x_mime_type = ustr ''text/plain'', x_storage_path = Some (ustr ''uploads/1_one.txt''),
              x_created_at = 0, x_updated_at = 0\<rparr>"

definition file_2 :: file_doc where
  "file_2 = \<lparr>x_id = id_2, x_name = ustr ''two.txt'', x_parent_id = Some (ustr ''00000000000000000000000c''),
              x_size = 3, x_mime_type = ustr ''text/plain'', x_storage_path = Some (ustr ''uploads/2_two.txt''),
              x_created_at = 0, x_updated_at = 0\<rparr>"

definition file_3 :: file_doc where
  "file_3 = \<lparr>x_id = id_3, x_name = ustr ''three.txt'', x_parent_id = Some (ustr ''00000000000000000000000e''),
              x_size = 5, x_mime_type = ustr ''text/plain'', x_storage_path = Some (ustr ''uploads/3_three.txt''),
              x_created_at = 0, x_updated_at = 0\<rparr>"

definition db_tree :: database where
  "db_tree = \<lparr>folder = [folder_a, folder_b, folder_c, folder_d, folder_e],
               fileitem = [file_1, file_2, file_3], journal = []\<rparr>"

definition order_of_a :: "del_event list" where
  "order_of_a = [DelFile id_1, DelFile id_2, DelFolder id_c, DelFolder id_b, DelFolder id_d, DelFolder id_a]"




section \<open>Properties\<close>

subsection \<open>Facts about the store's primitives\<close>

lemma ustr_inject [simp]: "(ustr a = ustr b) = (a = b)"
  unfolding ustr_def by (rule inj_map_eq_map) (simp add: inj_on_def)

lemma ustr_empty [simp]: "(ustr a = []) = (a = [])" "([] = ustr a) = (a = [])"
  by (auto simp: ustr_def)

lemma ObjectId_a: "ObjectId (ustr ''00000000000000000000000a'') = Some id_a"
  by (simp add: ObjectId_def ustr_def is_hex_def lower_hex_def ascii_space_def id_a_def)


text \<open>
  What \<open>ObjectId\<close> accepts: 24 hexadecimal digits, which it reads in lower case, and also
  24 characters of fewer digits with ASCII whitespace between the pairs; never a string of
  another length, nor one with any other character.
\<close>

lemma fromhex_hex: "list_all is_hex s \<Longrightarrow> even (length s) \<Longrightarrow> fromhex s = Some (map lower_hex s)"
  by (induction s rule: fromhex.induct) (auto simp: is_hex_def ascii_space_def)

lemma ObjectId_hex:
  "length s = 24 \<Longrightarrow> list_all is_hex s \<Longrightarrow> ObjectId s = Some (OID (map lower_hex s))"
  by (simp add: ObjectId_def fromhex_hex)

lemma fromhex_chars: "fromhex s = Some h \<Longrightarrow> list_all (\<lambda>c. is_hex c \<or> ascii_space c) s"
  by (induction s arbitrary: h rule: fromhex.induct) (auto split: if_splits)

lemma ObjectId_accepts:
  "ObjectId s = Some k \<Longrightarrow> length s = 24 \<and> list_all (\<lambda>c. is_hex c \<or> ascii_space c) s"
  by (auto simp: ObjectId_def dest: fromhex_chars split: if_splits)

lemma ObjectId_spaced:
  "ObjectId (ustr ''00 00 00 00 00 00 00 00 '') = Some (OID (ustr ''0000000000000000''))"
  by (simp add: ObjectId_def ustr_def is_hex_def lower_hex_def ascii_space_def)

lemma ObjectId_spaces: "ObjectId (replicate 24 32) = Some (OID [])"
  by (simp add: ObjectId_def ascii_space_def eval_nat_numeral)

lemma ObjectId_zzz: "ObjectId (ustr ''zzz'') = None"
  by (simp add: ObjectId_def ustr_def)

lemma ObjectId_root: "ObjectId (ustr ''root'') = None"
  by (simp add: ObjectId_def ustr_def)

lemma ObjectId_split_pair: "ObjectId (ustr ''0 0000000000000000000000'') = None"
  by (simp add: ObjectId_def ustr_def is_hex_def lower_hex_def ascii_space_def)

lemma delete_first_distinct:
  "distinct (map g xs) \<Longrightarrow> delete_first (\<lambda>x. g x = k) xs = filter (\<lambda>x. g x \<noteq> k) xs"
proof (induction xs)
  case Nil
  show ?case by simp
next
  case (Cons a xs)
  show ?case
  proof (cases "g a = k")
    case True
    with Cons.prems have "\<forall>x \<in> set xs. g x \<noteq> k" by (auto simp: image_iff)
    then have "filter (\<lambda>x. g x \<noteq> k) xs = xs" by (simp add: filter_id_conv)
    with True show ?thesis by simp
  next
    case False
    with Cons show ?thesis by simp
  qed
qed



lemma find_Some_key: "find (\<lambda>x. g x = k) xs = Some y \<Longrightarrow> g y = k \<and> y \<in> set xs"
  by (induction xs) (auto split: if_splits)


subsection \<open>What stripping leaves\<close>

lemma strip_decomp:
  "s = takeWhile isspace s @ strip s @ rev (takeWhile isspace (rev (dropWhile isspace s)))"
proof -
  define t where "t = dropWhile isspace s"
  have "strip s @ rev (takeWhile isspace (rev t))
      = rev (takeWhile isspace (rev t) @ dropWhile isspace (rev t))"
    unfolding strip_def t_def by (simp only: rev_append)
  also have "\<dots> = t" by (simp only: takeWhile_dropWhile_id rev_rev_ident)
  finally have "takeWhile isspace s @ strip s @ rev (takeWhile isspace (rev t)) = takeWhile isspace s @ t"
    by simp
  also have "\<dots> = s" unfolding t_def by (rule takeWhile_dropWhile_id)
  finally show ?thesis unfolding t_def by simp
qed

lemma strip_around:
  "\<exists>pre post. s = pre @ strip s @ post \<and> list_all isspace pre \<and> list_all isspace post"
proof -
  define pre where "pre = takeWhile isspace s"
  define post where "post = rev (takeWhile isspace (rev (dropWhile isspace s)))"
  have 1: "s = pre @ strip s @ post" unfolding pre_def post_def by (rule strip_decomp)
  have 2: "list_all isspace pre"
    unfolding pre_def list_all_iff by (auto dest: set_takeWhileD)
  have 3: "list_all isspace post"
    unfolding post_def list_all_iff by (auto dest: set_takeWhileD)
  from 1 2 3 show ?thesis by blast
qed

lemma strip_last: "strip s \<noteq> [] \<Longrightarrow> \<not> isspace (last (strip s))"
proof -
  assume ne: "strip s \<noteq> []"
  define u where "u = dropWhile isspace (rev (dropWhile isspace s))"
  from ne have u: "u \<noteq> []" by (simp add: strip_def u_def)
  then have "\<not> isspace (hd u)" unfolding u_def by (rule hd_dropWhile)
  moreover have "last (strip s) = hd u" using u by (simp add: strip_def u_def last_rev)
  ultimately show ?thesis by simp
qed

lemma strip_hd: "strip s \<noteq> [] \<Longrightarrow> \<not> isspace (hd (strip s))"
proof -
  assume ne: "strip s \<noteq> []"
  define t where "t = dropWhile isspace s"
  define post where "post = rev (takeWhile isspace (rev t))"
  have "s = takeWhile isspace s @ strip s @ post" unfolding post_def t_def by (rule strip_decomp)
  then have "takeWhile isspace s @ t = takeWhile isspace s @ strip s @ post"
    unfolding t_def by (simp only: takeWhile_dropWhile_id)
  then have t: "t = strip s @ post" by simp
  with ne have tn: "t \<noteq> []" and h: "hd t = hd (strip s)" by simp_all
  from tn have "\<not> isspace (hd t)" unfolding t_def by (rule hd_dropWhile)
  with h show ?thesis by simp
qed

lemma strip_unique:
  assumes "s = pre @ t @ post" and "list_all isspace pre" and "list_all isspace post"
    and "t \<noteq> []" and "\<not> isspace (hd t)" and "\<not> isspace (last t)"
  shows "strip s = t"
proof -
  from assms(4) obtain a t' where t: "t = a # t'" by (cases t) auto
  with assms(5) have a: "\<not> isspace a" by simp
  from assms(2) have "dropWhile isspace s = t @ post"
    unfolding assms(1) t using a by (simp add: dropWhile_append list_all_iff)
  moreover have "dropWhile isspace (rev (t @ post)) = rev t"
  proof -
    from assms(4) have rt: "rev t = last t # rev (butlast t)"
      by (metis append_butlast_last_id rev.simps(2) rev_swap)
    have "dropWhile isspace (last t # rev (butlast t)) = last t # rev (butlast t)"
      using assms(6) by simp
    then have "dropWhile isspace (rev t) = rev t" by (simp only: rt [symmetric])
    with assms(3) show ?thesis
      by (simp add: dropWhile_append list_all_iff)
  qed
  ultimately show ?thesis by (simp add: strip_def)
qed

subsection \<open>Creating a folder and listing its parent\<close>

text \<open>
  C9. For every name that is not empty after stripping and every parent value \<open>p\<close>,
  \<open>create_folder\<close> succeeds, and \<open>list_items\<close> of \<open>p\<close> on the store it leaves returns a
  folder list holding a folder whose name is the stripped name. The stripped name is the
  name without the whitespace around it: the name is the stripped name between two runs of
  whitespace, and the stripped name neither starts nor ends with whitespace.
\<close>

theorem create_folder_then_list_items:
  assumes "strip n \<noteq> []"
  shows "\<exists>doc d'. create_folder (Some d) new_id now n p = Inr (FolderDoc doc, d')
          \<and> (\<exists>fs xs. list_items (Some d') p = Inr (Listing fs xs)
                \<and> (\<exists>f \<in> set fs. f_name f = strip n))
          \<and> (\<exists>pre post. n = pre @ strip n @ post \<and> list_all isspace pre \<and> list_all isspace post)
          \<and> \<not> isspace (hd (strip n)) \<and> \<not> isspace (last (strip n))"
proof -
  have 1: "\<exists>doc d'. create_folder (Some d) new_id now n p = Inr (FolderDoc doc, d')
          \<and> (\<exists>fs xs. list_items (Some d') p = Inr (Listing fs xs)
                \<and> (\<exists>f \<in> set fs. f_name f = strip n))"
    using assms by (auto simp: create_folder_def list_items_def Let_def find_folders_def)
  from 1 strip_around [of n] strip_hd [OF assms] strip_last [OF assms] show ?thesis by blast
qed

lemma strip_docs:
  "strip ([160, 32] @ ustr ''My Docs'' @ [9, 12288, 10]) = ustr ''My Docs''"
  by (simp add: strip_def isspace_def ustr_def)

theorem create_folder_then_list_items_witness:
  "strip ([160, 32] @ ustr ''My Docs'' @ [9, 12288, 10]) \<noteq> []
   \<and> (\<exists>doc d'. create_folder (Some empty_db) id_a 7 ([160, 32] @ ustr ''My Docs'' @ [9, 12288, 10])
                  (Some (ustr ''00000000000000000000000b'')) = Inr (FolderDoc doc, d')
        \<and> (\<exists>fs xs. list_items (Some d') (Some (ustr ''00000000000000000000000b'')) = Inr (Listing fs xs)
              \<and> (\<exists>f \<in> set fs. f_name f = ustr ''My Docs'')))
   \<and> \<not> isspace (hd (ustr ''My Docs'')) \<and> \<not> isspace (last (ustr ''My Docs''))"
proof -
  have h: "strip ([160, 32] @ ustr ''My Docs'' @ [9, 12288, 10]) \<noteq> []"
    by (simp only: strip_docs) simp
  from create_folder_then_list_items [OF h, of empty_db id_a 7 "Some (ustr ''00000000000000000000000b'')"]
  have "\<exists>doc d'. create_folder (Some empty_db) id_a 7 ([160, 32] @ ustr ''My Docs'' @ [9, 12288, 10])
                  (Some (ustr ''00000000000000000000000b'')) = Inr (FolderDoc doc, d')
        \<and> (\<exists>fs xs. list_items (Some d') (Some (ustr ''00000000000000000000000b'')) = Inr (Listing fs xs)
              \<and> (\<exists>f \<in> set fs. f_name f = ustr ''My Docs''))
        \<and> (\<exists>pre post. [160, 32] @ ustr ''My Docs'' @ [9, 12288, 10] = pre @ ustr ''My Docs'' @ post
              \<and> list_all isspace pre \<and> list_all isspace post)
        \<and> \<not> isspace (hd (ustr ''My Docs'')) \<and> \<not> isspace (last (ustr ''My Docs''))"
    by (simp only: strip_docs)
  with h show ?thesis by blast
qed

text \<open>
  A name that is empty after stripping, such as a lone no-break space, is refused, and
  the stripped name is the only way to cut whitespace from both ends of a name.
\<close>

lemma create_folder_blank_name:
  "strip n = [] \<Longrightarrow> create_folder (Some d) new_id now n p = Inl (HTTPException 400 ''Name required'')"
  by (simp add: create_folder_def Let_def)

lemma strip_no_break_space: "strip [160] = []"
  by (simp add: strip_def isspace_def)

subsection \<open>Deleting a file\<close>




subsection \<open>Downloading\<close>

text \<open>
  C8, as stated, fails on an id that \<open>ObjectId\<close> refuses: no file document exists for
  the string \<open>zzz\<close>, and \<open>download_file\<close> answers 400 \<open>Invalid id\<close>, not 404.
\<close>

theorem download_file_malformed_id_counterexample:
  "find_one_file empty_db (ObjectId (ustr ''zzz'')) = None
   \<and> download_file (Some empty_db) empty_disk (ustr ''zzz'') = Inl (HTTPException 400 ''Invalid id'')"
  by (simp add: download_file_def oid_def ObjectId_zzz find_one_file_def empty_db_def)

text \<open>
  C8, amended. A non-empty id that \<open>ObjectId\<close> refuses gives the 400 error of \<open>oid\<close>. For
  an empty id or one that \<open>ObjectId\<close> accepts, \<open>download_file\<close> answers 404 when no file
  document has it, 404 when the document has no storage path (absent or empty) or no blob
  under the path, and otherwise the bytes under the path with the document's mime type and
  name.
\<close>

theorem download_file_results:
  "(file_id \<noteq> [] \<and> ObjectId file_id = None
      \<longrightarrow> download_file (Some d) fs file_id = Inl (HTTPException 400 ''Invalid id''))
   \<and> (oid (Some file_id) = Inr k \<and> find_one_file d k = None
      \<longrightarrow> download_file (Some d) fs file_id = Inl (HTTPException 404 ''File not found''))
   \<and> (oid (Some file_id) = Inr k \<and> find_one_file d k = Some doc
        \<and> (x_storage_path doc = None \<or> x_storage_path doc = Some []
             \<or> (\<exists>p. x_storage_path doc = Some p \<and> content fs p = None))
      \<longrightarrow> download_file (Some d) fs file_id = Inl (HTTPException 404 ''Stored file missing''))
   \<and> (oid (Some file_id) = Inr k \<and> find_one_file d k = Some doc
        \<and> x_storage_path doc = Some p \<and> p \<noteq> [] \<and> content fs p = Some data
      \<longrightarrow> download_file (Some d) fs file_id = Inr (FileResponse data (x_mime_type doc) (x_name doc)))"
  by (auto simp: download_file_def oid_def or_None_def split: option.splits)

theorem download_file_results_witness:
  "download_file (Some db_one_file) disk_locked (ustr ''zzz'') = Inl (HTTPException 400 ''Invalid id'')
   \<and> download_file (Some db_one_file) disk_locked (ustr ''00000000000000000000000b'')
       = Inl (HTTPException 404 ''File not found'')
   \<and> download_file (Some db_one_file) disk_locked (ustr ''00 00 00 00 00 00 00 00 '')
       = Inl (HTTPException 404 ''File not found'')
   \<and> download_file (Some db_one_file) empty_disk (ustr ''00000000000000000000000a'')
       = Inl (HTTPException 404 ''Stored file missing'')
   \<and> download_file (Some db_one_file) disk_locked (ustr ''00000000000000000000000a'')
       = Inr (FileResponse ''hi'' (ustr ''text/plain'') (ustr ''a.txt''))"
proof -
  have z: "ustr ''zzz'' \<noteq> []" by simp
  have b: "oid (Some (ustr ''00000000000000000000000b'')) = Inr (Some id_b)"
    by (simp add: oid_def ObjectId_def ustr_def is_hex_def lower_hex_def ascii_space_def id_b_def)
  have b': "find_one_file db_one_file (Some id_b) = None"
    by (simp add: find_one_file_def db_one_file_def file_a_def id_a_def id_b_def)
  have s: "oid (Some (ustr ''00 00 00 00 00 00 00 00 '')) = Inr (Some (OID (ustr ''0000000000000000'')))"
    by (simp add: oid_def ObjectId_spaced)
  have s': "find_one_file db_one_file (Some (OID (ustr ''0000000000000000''))) = None"
    by (simp add: find_one_file_def db_one_file_def file_a_def id_a_def)
  have c: "oid (Some (ustr ''00000000000000000000000a'')) = Inr (Some id_a)"
    by (simp add: oid_def ObjectId_a)
  have c': "find_one_file db_one_file (Some id_a) = Some file_a"
    by (simp add: find_one_file_def db_one_file_def file_a_def)
  have p: "x_storage_path file_a = Some (ustr ''uploads/1_a.txt'')" by (simp add: file_a_def)
  have pn: "ustr ''uploads/1_a.txt'' \<noteq> []" by simp
  have e: "content empty_disk (ustr ''uploads/1_a.txt'') = None" by (simp add: empty_disk_def)
  have l: "content disk_locked (ustr ''uploads/1_a.txt'') = Some ''hi''" by (simp add: disk_locked_def)
  have 1: "download_file (Some db_one_file) disk_locked (ustr ''zzz'') = Inl (HTTPException 400 ''Invalid id'')"
    using download_file_results [of "ustr ''zzz''" db_one_file disk_locked] z ObjectId_zzz by simp
  have 2: "download_file (Some db_one_file) disk_locked (ustr ''00000000000000000000000b'')
       = Inl (HTTPException 404 ''File not found'')"
    using download_file_results [of "ustr ''00000000000000000000000b''" db_one_file disk_locked "Some id_b"] b b'
    by simp
  have 3: "download_file (Some db_one_file) disk_locked (ustr ''00 00 00 00 00 00 00 00 '')
       = Inl (HTTPException 404 ''File not found'')"
    using download_file_results [of "ustr ''00 00 00 00 00 00 00 00 ''" db_one_file disk_locked
        "Some (OID (ustr ''0000000000000000''))"] s s'
    by simp
  have 4: "download_file (Some db_one_file) empty_disk (ustr ''00000000000000000000000a'')
       = Inl (HTTPException 404 ''Stored file missing'')"
    using download_file_results [of "ustr ''00000000000000000000000a''" db_one_file empty_disk "Some id_a" file_a] c c' p e
    by simp
  have 5: "download_file (Some db_one_file) disk_locked (ustr ''00000000000000000000000a'')
       = Inr (FileResponse ''hi'' (ustr ''text/plain'') (ustr ''a.txt''))"
    using download_file_results [of "ustr ''00000000000000000000000a''" db_one_file disk_locked "Some id_a" file_a
        "ustr ''uploads/1_a.txt''" "''hi''"] c c' p pn l
    by (simp add: file_a_def)
  from 1 2 3 4 5 show ?thesis by blast
qed

subsection \<open>Breadcrumbs of a folder that does not exist\<close>

text \<open>The only exception the loop of the breadcrumbs raises is the \<open>InvalidId\<close> of a parent id.\<close>

lemma breadcrumbs_loop_error:
  assumes "breadcrumbs_loop d cur acc = Some r"
  shows "r = Inl InvalidId \<or> (\<exists>crumbs. r = Inr crumbs)"
proof (rule breadcrumbs_loop.raw_induct
    [where P = "\<lambda>d cur acc r. r = Inl InvalidId \<or> (\<exists>crumbs. r = Inr crumbs)", OF _ assms])
  fix loop :: "database \<Rightarrow> folder_doc option \<Rightarrow> (unicode \<times> unicode) list
     \<Rightarrow> (error + (unicode \<times> unicode) list) option"
  fix d :: database and cur :: "folder_doc option" and acc r
  assume IH: "\<And>d cur acc r. loop d cur acc = Some r \<Longrightarrow> r = Inl InvalidId \<or> (\<exists>crumbs. r = Inr crumbs)"
  assume body: "(case cur of
        None \<Rightarrow> Some (Inr acc)
      | Some c \<Rightarrow>
          let crumbs' = acc @ [(str (f_id c), f_name c)]
          in (case or_None (f_parent_id c) of
                None \<Rightarrow> Some (Inr crumbs')
              | Some pid \<Rightarrow>
                  (case ObjectId pid of
                     None \<Rightarrow> Some (Inl InvalidId)
                   | Some k \<Rightarrow> loop d (find_one_folder d (Some k)) crumbs'))) = Some r"
  show "r = Inl InvalidId \<or> (\<exists>crumbs. r = Inr crumbs)"
  proof (cases cur)
    case None
    with body show ?thesis by auto
  next
    case (Some c)
    show ?thesis
    proof (cases "or_None (f_parent_id c)")
      case None
      with Some body show ?thesis by (auto simp: Let_def)
    next
      case pid: (Some pid)
      show ?thesis
      proof (cases "ObjectId pid")
        case None
        with Some pid body show ?thesis by (auto simp: Let_def)
      next
        case k: (Some k)
        from body Some pid k
        have "loop d (find_one_folder d (Some k)) (acc @ [(str (f_id c), f_name c)]) = Some r"
          by (simp add: Let_def)
        then show ?thesis by (rule IH)
      qed
    qed
  qed
qed

lemma get_breadcrumbs_errors:
  assumes "get_breadcrumbs db folder_id = Some (Inl e)"
  shows "e = not_configured \<or> e = HTTPException 400 ''Invalid id'' \<or> e = InvalidId"
proof (cases db)
  case None
  with assms show ?thesis by (simp add: get_breadcrumbs_def)
next
  case (Some d)
  show ?thesis
  proof (cases "oid (Some folder_id)")
    case (Inl e')
    then have "e' = HTTPException 400 ''Invalid id''"
      by (auto simp: oid_def split: if_splits option.splits)
    with assms Some Inl show ?thesis by (simp add: get_breadcrumbs_def)
  next
    case (Inr k)
    with assms Some have "breadcrumbs_loop d (find_one_folder d k) [] = Some (Inl e)"
      by (auto simp: get_breadcrumbs_def split: option.splits sum.splits)
    from breadcrumbs_loop_error [OF this] show ?thesis by simp
  qed
qed

text \<open>
  C3, as stated, fails: on a store without folders, \<open>get_breadcrumbs\<close> of a well-formed id
  answers with success and an empty chain.
\<close>

theorem get_breadcrumbs_missing_folder_counterexample:
  "find_one_folder empty_db (ObjectId (ustr ''00000000000000000000000a'')) = None
   \<and> get_breadcrumbs (Some empty_db) (ustr ''00000000000000000000000a'') = Some (Inr (Breadcrumbs []))"
  by (simp add: get_breadcrumbs_def oid_def ObjectId_a find_one_folder_def empty_db_def
      breadcrumbs_loop.simps)

text \<open>
  C3, amended. When the folder id is empty or one that \<open>ObjectId\<close> accepts and no folder
  document has it, \<open>get_breadcrumbs\<close> succeeds with the empty chain; when the id is not
  empty and \<open>ObjectId\<close> refuses it, \<open>get_breadcrumbs\<close> fails with 400 \<open>Invalid id\<close>. Whatever
  the store and the id, it never answers 404.
\<close>

theorem get_breadcrumbs_unresolved:
  "(oid (Some folder_id) = Inr k \<and> find_one_folder d k = None
      \<longrightarrow> get_breadcrumbs (Some d) folder_id = Some (Inr (Breadcrumbs [])))
   \<and> (folder_id \<noteq> [] \<and> ObjectId folder_id = None
      \<longrightarrow> get_breadcrumbs (Some d) folder_id = Some (Inl (HTTPException 400 ''Invalid id'')))
   \<and> get_breadcrumbs db folder_id \<noteq> Some (Inl (HTTPException 404 msg))"
proof -
  have 1: "oid (Some folder_id) = Inr k \<and> find_one_folder d k = None
      \<longrightarrow> get_breadcrumbs (Some d) folder_id = Some (Inr (Breadcrumbs []))"
    by (auto simp: get_breadcrumbs_def breadcrumbs_loop.simps)
  have 2: "folder_id \<noteq> [] \<and> ObjectId folder_id = None
      \<longrightarrow> get_breadcrumbs (Some d) folder_id = Some (Inl (HTTPException 400 ''Invalid id''))"
    by (auto simp: get_breadcrumbs_def oid_def)
  have 3: "get_breadcrumbs db folder_id \<noteq> Some (Inl (HTTPException 404 msg))"
  proof
    assume "get_breadcrumbs db folder_id = Some (Inl (HTTPException 404 msg))"
    from get_breadcrumbs_errors [OF this] show False by (simp add: not_configured_def)
  qed
  from 1 2 3 show ?thesis by blast
qed

theorem get_breadcrumbs_unresolved_witness:
  "get_breadcrumbs (Some empty_db) (ustr ''00000000000000000000000a'') = Some (Inr (Breadcrumbs []))
   \<and> get_breadcrumbs (Some empty_db) (replicate 24 32) = Some (Inr (Breadcrumbs []))
   \<and> get_breadcrumbs (Some empty_db) (ustr ''root'') = Some (Inl (HTTPException 400 ''Invalid id''))"
proof -
  have a: "oid (Some (ustr ''00000000000000000000000a'')) = Inr (Some id_a)"
    by (simp add: oid_def ObjectId_a)
  have a': "find_one_folder empty_db (Some id_a) = None"
    by (simp add: find_one_folder_def empty_db_def)
  have s: "oid (Some (replicate 24 32)) = Inr (Some (OID []))"
    by (simp add: oid_def ObjectId_spaces)
  have s': "find_one_folder empty_db (Some (OID [])) = None"
    by (simp add: find_one_folder_def empty_db_def)
  have b: "ustr ''root'' \<noteq> []" by simp
  have 1: "get_breadcrumbs (Some empty_db) (ustr ''00000000000000000000000a'') = Some (Inr (Breadcrumbs []))"
    using get_breadcrumbs_unresolved [of "ustr ''00000000000000000000000a''" "Some id_a" empty_db] a a'
    by simp
  have 2: "get_breadcrumbs (Some empty_db) (replicate 24 32) = Some (Inr (Breadcrumbs []))"
    using get_breadcrumbs_unresolved [of "replicate 24 32" "Some (OID [])" empty_db] s s'
    by simp
  have 3: "get_breadcrumbs (Some empty_db) (ustr ''root'') = Some (Inl (HTTPException 400 ''Invalid id''))"
    using get_breadcrumbs_unresolved [of "ustr ''root''" _ empty_db] b ObjectId_root by simp
  from 1 2 3 show ?thesis by blast
qed

subsection \<open>Stored names\<close>

text \<open>
  The two writers that strip: \<open>create_folder\<close> and \<open>rename_item\<close> (of a file as of a folder)
  leave a store of trimmed names a store of trimmed names.
\<close>

lemma strip_idem: "strip (strip s) = strip s"
proof -
  define t where "t = dropWhile isspace s"
  define u where "u = rev (dropWhile isspace (rev t))"
  have su: "strip s = u" by (simp add: strip_def t_def u_def)
  have t: "t = u @ rev (takeWhile isspace (rev t))"
  proof -
    have "u @ rev (takeWhile isspace (rev t))
        = rev (takeWhile isspace (rev t) @ dropWhile isspace (rev t))"
      unfolding u_def by (simp only: rev_append)
    also have "\<dots> = t" by (simp only: takeWhile_dropWhile_id rev_rev_ident)
    finally show ?thesis by simp
  qed
  have 1: "dropWhile isspace u = u"
  proof (cases u)
    case Nil
    then show ?thesis by simp
  next
    case (Cons a v)
    with t have "hd t = a" "t \<noteq> []" by (metis append_Cons list.sel(1), auto)
    moreover have "t \<noteq> [] \<Longrightarrow> \<not> isspace (hd t)" unfolding t_def by (rule hd_dropWhile)
    ultimately have "\<not> isspace a" by simp
    with Cons show ?thesis by simp
  qed
  have 2: "dropWhile isspace (rev u) = rev u" by (simp add: u_def)
  have "strip u = u" by (simp add: strip_def 1 2)
  with su show ?thesis by simp
qed

lemma trimmed_strip: "strip s \<noteq> [] \<Longrightarrow> trimmed (strip s)"
  by (simp add: trimmed_def strip_idem)

lemma list_all_update_first:
  "list_all Q xs \<Longrightarrow> (\<And>x. Q x \<Longrightarrow> Q (g x)) \<Longrightarrow> list_all Q (update_first P g xs)"
  by (induction xs) auto

lemma create_folder_names_ok:
  "names_ok d \<Longrightarrow> create_folder (Some d) new_id now name p = Inr (r, d') \<Longrightarrow> names_ok d'"
  by (auto simp: create_folder_def names_ok_def Let_def trimmed_strip split: if_splits)

lemma rename_item_names_ok:
  assumes "names_ok d" and "rename_item (Some d) now item_id type name = Inr (r, d')"
  shows "names_ok d'"
proof -
  from assms(2) have ne: "strip name \<noteq> []"
    by (auto simp: rename_item_def Let_def split: if_splits)
  then have t: "trimmed (strip name)" by (rule trimmed_strip)
  from assms(2) ne obtain k where
    "d' = d\<lparr>fileitem := update_first (\<lambda>x. Some (x_id x) = k)
                 (\<lambda>x. x\<lparr>x_name := strip name, x_updated_at := now\<rparr>) (fileitem d)\<rparr>
     \<or> d' = d\<lparr>folder := update_first (\<lambda>f. Some (f_id f) = k)
                 (\<lambda>f. f\<lparr>f_name := strip name, f_updated_at := now\<rparr>) (folder d)\<rparr>"
    by (auto simp: rename_item_def Let_def split: sum.splits item_type.splits option.splits)
  with assms(1) t show ?thesis
    by (auto simp: names_ok_def intro!: list_all_update_first)
qed

text \<open>
  C4 at the upload of a file named \<open>" a.txt"\<close> into an empty store: \<open>upload_file\<close> stores
  the file name as it came, with its leading space, and the store it leaves no longer has
  only trimmed names.
\<close>

theorem upload_file_keeps_untrimmed_name:
  "names_ok empty_db
   \<and> (\<exists>doc d' fs'. upload_file (Some empty_db) empty_disk (ustr ''uploads'') (ustr ''1.5'') id_a 0 None (ustr '' a.txt'') ''hi''
                        (Some (ustr ''text/plain'')) = Inr (FileDoc doc, d', fs')
         \<and> x_name doc = ustr '' a.txt'' \<and> doc \<in> set (fileitem d') \<and> \<not> names_ok d')"
  by (simp add: upload_file_def open_write_def dest_path_def names_ok_def trimmed_def strip_def
      isspace_def empty_db_def empty_disk_def Let_def or_None_def ustr_def)

text \<open>
  \<open>upload_file\<close> stores nothing when the file cannot be opened for writing, which is the
  case for every file name with a slash.
\<close>

lemma upload_file_slash:
  "47 \<in> set filename \<Longrightarrow>
   upload_file (Some d) fs upload_dir stamp new_id now parent_id filename data content_type = Inl OSError
   \<or> upload_file (Some d) fs upload_dir stamp new_id now parent_id filename data content_type = Inl ValueError"
  by (simp add: upload_file_def open_write_def Let_def)

lemma upload_file_slash_example:
  "upload_file (Some empty_db) empty_disk (ustr ''uploads'') (ustr ''1.5'') id_a 0 None (ustr ''a/b.txt'') ''hi''
     (Some (ustr ''text/plain'')) = Inl OSError"
  by (simp add: upload_file_def open_write_def dest_path_def Let_def ustr_def)

subsection \<open>Facts about the concrete stores\<close>

lemma ObjectId_b: "ObjectId (ustr ''00000000000000000000000b'') = Some id_b"
  by (simp add: ObjectId_def ustr_def is_hex_def lower_hex_def ascii_space_def id_b_def)

lemma ids_distinct [simp]:
  "id_a \<noteq> id_b" "id_b \<noteq> id_a" "id_a \<noteq> id_c" "id_c \<noteq> id_a" "id_b \<noteq> id_c" "id_c \<noteq> id_b"
  by (simp_all add: id_a_def id_b_def id_c_def)

lemma ObjectId_c: "ObjectId (ustr ''00000000000000000000000c'') = Some id_c"
  by (simp add: ObjectId_def ustr_def is_hex_def lower_hex_def ascii_space_def id_c_def)

lemma str_ids:
  "str id_a = ustr ''00000000000000000000000a''" "str id_b = ustr ''00000000000000000000000b''"
  "str id_c = ustr ''00000000000000000000000c''"
  by (simp_all add: id_a_def id_b_def id_c_def)

lemma find_chain:
  "find_one_folder db_chain (Some id_a) = Some folder_a"
  "find_one_folder db_chain (Some id_b) = Some folder_b"
  "find_one_folder db_chain (Some id_c) = Some folder_c"
  by (simp_all add: find_one_folder_def db_chain_def folder_a_def folder_b_def folder_c_def)

lemma find_cycle:
  "find_one_folder db_cycle (Some id_a) = Some folder_a_in_b"
  "find_one_folder db_cycle (Some id_b) = Some folder_b"
  by (simp_all add: find_one_folder_def db_cycle_def folder_a_in_b_def folder_a_def folder_b_def)

lemma parents:
  "or_None (f_parent_id folder_a) = None"
  "or_None (f_parent_id folder_b) = Some (ustr ''00000000000000000000000a'')"
  "or_None (f_parent_id folder_c) = Some (ustr ''00000000000000000000000b'')"
  "or_None (f_parent_id folder_a_in_b) = Some (ustr ''00000000000000000000000b'')"
  "or_None (f_parent_id folder_bad_parent) = Some (ustr ''root'')"
  by (simp_all add: or_None_def folder_a_def folder_b_def folder_c_def folder_a_in_b_def
      folder_bad_parent_def)

subsection \<open>Breadcrumbs along a parent chain\<close>

lemma breadcrumbs_loop_chain:
  "parent_chain d (f # fs) \<Longrightarrow>
   breadcrumbs_loop d (Some f) acc = Some (Inr (acc @ map crumb (f # fs)))"
proof (induction fs arbitrary: f acc)
  case Nil
  then show ?case
    by (subst breadcrumbs_loop.simps)
       (auto simp: crumb_def breadcrumbs_loop.simps [of d None] split: option.splits)
next
  case (Cons g gs)
  from Cons.prems obtain pid k where p: "or_None (f_parent_id f) = Some pid" "ObjectId pid = Some k"
      "find_one_folder d (Some k) = Some g" and c: "parent_chain d (g # gs)"
    by (auto split: option.splits)
  from Cons.IH [OF c] p show ?case
    by (subst breadcrumbs_loop.simps) (simp add: crumb_def)
qed

text \<open>
  C6 at a folder created with the parent id \<open>root\<close>: the parent reference resolves to no
  existing folder, and \<open>get_breadcrumbs\<close> does not stop there with the chain collected so
  far but ends with the \<open>InvalidId\<close> of the bare \<open>ObjectId(pid)\<close>, which nothing catches.
\<close>

theorem get_breadcrumbs_malformed_parent_raises:
  "find_one_folder db_bad_parent (Some id_a) = Some folder_bad_parent
   \<and> f_parent_id folder_bad_parent = Some (ustr ''root'')
   \<and> find (\<lambda>f. str (f_id f) = ustr ''root'') (folder db_bad_parent) = None
   \<and> get_breadcrumbs (Some db_bad_parent) (ustr ''00000000000000000000000a'') = Some (Inl InvalidId)"
proof -
  have f: "find_one_folder db_bad_parent (Some id_a) = Some folder_bad_parent"
    by (simp add: find_one_folder_def db_bad_parent_def folder_bad_parent_def folder_a_def)
  have p: "f_parent_id folder_bad_parent = Some (ustr ''root'')"
    by (simp add: folder_bad_parent_def)
  have n: "find (\<lambda>f. str (f_id f) = ustr ''root'') (folder db_bad_parent) = None"
    by (simp add: db_bad_parent_def folder_bad_parent_def folder_a_def str_ids)
  have o: "ObjectId (ustr ''root'') = None" by (rule ObjectId_root)
  have "breadcrumbs_loop db_bad_parent (Some folder_bad_parent) [] = Some (Inl InvalidId)"
    by (subst breadcrumbs_loop.simps) (simp add: parents o)
  with f p n show ?thesis
    by (simp add: get_breadcrumbs_def oid_def ObjectId_a)
qed

text \<open>
  Where every parent reference is a well-formed id the walk is as the specification
  describes it: for every existing folder whose parent chain is \<open>f\<^sub>0, f\<^sub>1, \<dots>\<close>, each link
  the id of an existing folder, ending at a null or empty parent or at a well-formed id
  without a folder, \<open>get_breadcrumbs\<close> succeeds and returns the crumbs of the chain from the
  root end to the queried folder.
\<close>

theorem get_breadcrumbs_chain:
  assumes "oid (Some folder_id) = Inr k"
    and "find_one_folder d k = Some f"
    and "parent_chain d (f # fs)"
  shows "get_breadcrumbs (Some d) folder_id = Some (Inr (Breadcrumbs (rev (map crumb (f # fs)))))"
  using assms breadcrumbs_loop_chain [OF assms(3), of "[]"]
  by (simp add: get_breadcrumbs_def)

theorem get_breadcrumbs_chain_witness:
  "oid (Some (ustr ''00000000000000000000000c'')) = Inr (Some id_c)
   \<and> find_one_folder db_chain (Some id_c) = Some folder_c
   \<and> parent_chain db_chain [folder_c, folder_b, folder_a]
   \<and> get_breadcrumbs (Some db_chain) (ustr ''00000000000000000000000c'')
       = Some (Inr (Breadcrumbs [((ustr ''00000000000000000000000a''), (ustr ''A'')),
                                 ((ustr ''00000000000000000000000b''), (ustr ''B'')),
                                 ((ustr ''00000000000000000000000c''), (ustr ''C''))]))"
proof -
  have h1: "oid (Some (ustr ''00000000000000000000000c'')) = Inr (Some id_c)"
    by (simp add: oid_def ObjectId_c)
  have h2: "find_one_folder db_chain (Some id_c) = Some folder_c" by (rule find_chain)
  have h3: "parent_chain db_chain [folder_c, folder_b, folder_a]"
    by (simp add: find_chain parents ObjectId_a ObjectId_b)
  have c: "map crumb [folder_c, folder_b, folder_a]
         = [((ustr ''00000000000000000000000c''), (ustr ''C'')), ((ustr ''00000000000000000000000b''), (ustr ''B'')),
            ((ustr ''00000000000000000000000a''), (ustr ''A''))]"
    by (simp add: crumb_def folder_a_def folder_b_def folder_c_def str_ids)
  from get_breadcrumbs_chain [OF h1 h2 h3] c h1 h2 h3 show ?thesis by simp
qed

subsection \<open>Termination of the breadcrumb walk\<close>

lemma breadcrumbs_loop_ends:
  "chain_ends n d cur \<Longrightarrow> \<exists>r. breadcrumbs_loop d cur acc = Some r"
proof (induction n d cur arbitrary: acc rule: chain_ends.induct)
  case (1 n d)
  show ?case by (simp add: breadcrumbs_loop.simps)
next
  case (2 d cur)
  then show ?case by simp
next
  case (3 n d cur)
  then show ?case
    by (subst breadcrumbs_loop.simps) (auto split: option.splits)
qed

lemma breadcrumbs_loop_returns:
  assumes "breadcrumbs_loop d cur acc = Some r"
  shows "\<exists>n. chain_ends n d cur"
proof (rule breadcrumbs_loop.raw_induct [where P = "\<lambda>d cur acc r. \<exists>n. chain_ends n d cur", OF _ assms])
  fix loop :: "database \<Rightarrow> folder_doc option \<Rightarrow> (unicode \<times> unicode) list
     \<Rightarrow> (error + (unicode \<times> unicode) list) option"
  fix d :: database and cur :: "folder_doc option" and acc r
  assume IH: "\<And>d cur acc r. loop d cur acc = Some r \<Longrightarrow> \<exists>n. chain_ends n d cur"
  assume body: "(case cur of
        None \<Rightarrow> Some (Inr acc)
      | Some c \<Rightarrow>
          let crumbs' = acc @ [(str (f_id c), f_name c)]
          in (case or_None (f_parent_id c) of
                None \<Rightarrow> Some (Inr crumbs')
              | Some pid \<Rightarrow>
                  (case ObjectId pid of
                     None \<Rightarrow> Some (Inl InvalidId)
                   | Some k \<Rightarrow> loop d (find_one_folder d (Some k)) crumbs'))) = Some r"
  show "\<exists>n. chain_ends n d cur"
  proof (cases cur)
    case None
    then show ?thesis by (auto intro: exI [of _ 0])
  next
    case (Some c)
    show ?thesis
    proof (cases "or_None (f_parent_id c)")
      case None
      with Some have "chain_ends (Suc 0) d cur" by simp
      then show ?thesis ..
    next
      case pid: (Some pid)
      show ?thesis
      proof (cases "ObjectId pid")
        case None
        with Some pid have "chain_ends (Suc 0) d cur" by simp
        then show ?thesis ..
      next
        case k: (Some k)
        from body Some pid k
        have "loop d (find_one_folder d (Some k)) (acc @ [(str (f_id c), f_name c)]) = Some r"
          by (simp add: Let_def)
        then have "\<exists>n. chain_ends n d (find_one_folder d (Some k))" by (rule IH)
        then obtain n where "chain_ends n d (find_one_folder d (Some k))" ..
        with Some pid k have "chain_ends (Suc n) d cur" by simp
        then show ?thesis ..
      qed
    qed
  qed
qed

lemma cycle_never_ends:
  "\<not> chain_ends n db_cycle (Some folder_a_in_b) \<and> \<not> chain_ends n db_cycle (Some folder_b)"
proof (induction n)
  case 0
  show ?case by simp
next
  case (Suc n)
  then show ?case by (simp add: find_cycle parents ObjectId_a ObjectId_b)
qed

text \<open>
  C1, as stated, fails: on the cycle of two folders (\<open>A\<close> in \<open>B\<close>, \<open>B\<close> in \<open>A\<close>)
  \<open>get_breadcrumbs\<close> of \<open>A\<close> never returns, neither a chain nor an error.
\<close>

theorem get_breadcrumbs_cycle_counterexample:
  "find_one_folder db_cycle (Some id_a) = Some folder_a_in_b
   \<and> or_None (f_parent_id folder_a_in_b) = Some (str id_b)
   \<and> find_one_folder db_cycle (Some id_b) = Some folder_b
   \<and> or_None (f_parent_id folder_b) = Some (str id_a)
   \<and> get_breadcrumbs (Some db_cycle) (ustr ''00000000000000000000000a'') = None"
proof -
  have "breadcrumbs_loop db_cycle (Some folder_a_in_b) [] = None"
  proof (cases "breadcrumbs_loop db_cycle (Some folder_a_in_b) []")
    case None
    then show ?thesis .
  next
    case (Some r)
    from breadcrumbs_loop_returns [OF this] cycle_never_ends show ?thesis by blast
  qed
  then show ?thesis
    by (simp add: get_breadcrumbs_def oid_def ObjectId_a find_cycle parents str_ids)
qed

text \<open>
  C1, amended. \<open>get_breadcrumbs\<close> has no guard against revisited ids: for an empty or
  well-formed folder id it returns exactly when the walk along the parent ids stops after
  finitely many steps (at a null or empty parent, a parent without a folder, or a malformed
  parent id).
\<close>

theorem get_breadcrumbs_returns_iff:
  assumes "oid (Some folder_id) = Inr k"
  shows "(\<exists>r. get_breadcrumbs (Some d) folder_id = Some r) = (\<exists>n. chain_ends n d (find_one_folder d k))"
proof
  assume "\<exists>r. get_breadcrumbs (Some d) folder_id = Some r"
  with assms obtain r where "breadcrumbs_loop d (find_one_folder d k) [] = Some r"
    by (auto simp: get_breadcrumbs_def split: option.splits)
  then show "\<exists>n. chain_ends n d (find_one_folder d k)" by (rule breadcrumbs_loop_returns)
next
  assume "\<exists>n. chain_ends n d (find_one_folder d k)"
  then obtain n where "chain_ends n d (find_one_folder d k)" ..
  from breadcrumbs_loop_ends [OF this, of "[]"] assms
  show "\<exists>r. get_breadcrumbs (Some d) folder_id = Some r"
    by (auto simp: get_breadcrumbs_def split: option.splits sum.splits)
qed

theorem get_breadcrumbs_returns_iff_witness:
  "oid (Some (ustr ''00000000000000000000000c'')) = Inr (Some id_c)
   \<and> (\<exists>r. get_breadcrumbs (Some db_chain) (ustr ''00000000000000000000000c'') = Some r)
   \<and> (\<exists>n. chain_ends n db_chain (find_one_folder db_chain (Some id_c)))"
proof -
  have h: "oid (Some (ustr ''00000000000000000000000c'')) = Inr (Some id_c)"
    by (simp add: oid_def ObjectId_c)
  have "chain_ends (Suc (Suc (Suc 0))) db_chain (find_one_folder db_chain (Some id_c))"
    by (simp add: find_chain parents ObjectId_a ObjectId_b)
  then have e: "\<exists>n. chain_ends n db_chain (find_one_folder db_chain (Some id_c))" ..
  with get_breadcrumbs_returns_iff [OF h, of db_chain] h show ?thesis by simp
qed


subsection \<open>The deletion order and the recursion\<close>

lemma fold_delete_first:
  "distinct (map g xs) \<Longrightarrow>
   fold (\<lambda>k. delete_first (\<lambda>x. g x = k)) ks xs = filter (\<lambda>x. g x \<notin> set ks) xs"
proof (induction ks arbitrary: xs)
  case Nil
  show ?case by simp
next
  case (Cons k ks)
  have "distinct (map g (filter (\<lambda>x. g x \<noteq> k) xs))"
    using Cons.prems by (simp add: distinct_map_filter)
  from Cons.IH [OF this] Cons.prems show ?case
    by (simp add: delete_first_distinct conj_commute)
qed

lemma fold_delete_file_inside:
  "distinct (map x_id (fileitem d)) \<Longrightarrow>
   fst (fold delete_file_inside xs (d, fs))
     = d\<lparr>fileitem := filter (\<lambda>x. x_id x \<notin> x_id ` set xs) (fileitem d),
          journal := journal d @ map (\<lambda>x. DelFile (x_id x)) xs\<rparr>"
proof (induction xs arbitrary: d fs)
  case Nil
  show ?case by simp
next
  case (Cons x xs)
  let ?d1 = "delete_one_file (x_id x) d"
  have f1: "fileitem ?d1 = filter (\<lambda>y. x_id y \<noteq> x_id x) (fileitem d)"
    using Cons.prems by (simp add: delete_one_file_def delete_first_distinct)
  then have "distinct (map x_id (fileitem ?d1))"
    using Cons.prems by (simp add: distinct_map_filter)
  from Cons.IH [OF this, of "remove_from_disk (x_storage_path x) fs"] f1 show ?case
    by (simp add: delete_file_inside_def delete_one_file_def conj_commute)
qed

lemma filter_filter_implied:
  "(\<forall>x \<in> set xs. Q x \<longrightarrow> P x) \<Longrightarrow> filter Q (filter P xs) = filter Q xs"
  by (induction xs) auto

lemma deletion_order_has_root:
  "deletion_order n d k = Some e \<Longrightarrow> DelFolder k \<in> set e"
  by (cases n) (auto split: option.splits)

lemma deletion_orders_has_children:
  "deletion_orders n d cs = Some es \<Longrightarrow> c \<in> set cs \<Longrightarrow> DelFolder (f_id c) \<in> set es"
  by (induction cs arbitrary: es) (auto split: option.splits dest: deletion_order_has_root)

lemma deletion_order_filter:
  "deletion_order n d k = Some e \<Longrightarrow>
     folder d' = filter keepF (folder d) \<Longrightarrow> fileitem d' = filter keepX (fileitem d) \<Longrightarrow>
     (\<forall>f \<in> set (folder d). DelFolder (f_id f) \<in> set e \<longrightarrow> keepF f) \<Longrightarrow>
     (\<forall>x \<in> set (fileitem d). DelFile (x_id x) \<in> set e \<longrightarrow> keepX x) \<Longrightarrow>
     deletion_order n d' k = Some e"
  "deletion_orders n d cs = Some es \<Longrightarrow>
     folder d' = filter keepF (folder d) \<Longrightarrow> fileitem d' = filter keepX (fileitem d) \<Longrightarrow>
     (\<forall>f \<in> set (folder d). DelFolder (f_id f) \<in> set es \<longrightarrow> keepF f) \<Longrightarrow>
     (\<forall>x \<in> set (fileitem d). DelFile (x_id x) \<in> set es \<longrightarrow> keepX x) \<Longrightarrow>
     deletion_orders n d' cs = Some es"
proof (induction n d k and n d cs arbitrary: e and es rule: deletion_order_deletion_orders.induct)
  case (1 d k)
  then show ?case by simp
next
  case (2 n d k)
  let ?cs = "find_folders d (Some (str k))"
  let ?xs = "find_files d (Some (str k))"
  from "2.prems"(1) obtain es where es: "deletion_orders n d ?cs = Some es"
    and e: "e = map (\<lambda>x. DelFile (x_id x)) ?xs @ es @ [DelFolder k]"
    by (auto split: option.splits)
  have sub: "set es \<subseteq> set e" using e by auto
  note F = "2.prems"(2) and X = "2.prems"(3)
  have 1: "deletion_orders n d' ?cs = Some es"
    using "2.IH" [OF es F X] "2.prems"(4,5) sub by blast
  have "\<forall>c \<in> set ?cs. keepF c"
  proof
    fix c assume c: "c \<in> set ?cs"
    from deletion_orders_has_children [OF es c] sub have "DelFolder (f_id c) \<in> set e" by blast
    moreover from c have "c \<in> set (folder d)" by (simp add: find_folders_def)
    ultimately show "keepF c" using "2.prems"(4) by blast
  qed
  then have "\<forall>f \<in> set (folder d). f_parent_id f = Some (str k) \<longrightarrow> keepF f"
    by (simp add: find_folders_def)
  then have "filter (\<lambda>f. f_parent_id f = Some (str k)) (filter keepF (folder d))
      = filter (\<lambda>f. f_parent_id f = Some (str k)) (folder d)"
    by (rule filter_filter_implied)
  then have 2: "find_folders d' (Some (str k)) = ?cs"
    by (simp only: find_folders_def F)
  have "\<forall>x \<in> set ?xs. keepX x"
  proof
    fix x assume x: "x \<in> set ?xs"
    then have "DelFile (x_id x) \<in> set e" using e by auto
    moreover from x have "x \<in> set (fileitem d)" by (simp add: find_files_def)
    ultimately show "keepX x" using "2.prems"(5) by blast
  qed
  then have "\<forall>x \<in> set (fileitem d). x_parent_id x = Some (str k) \<longrightarrow> keepX x"
    by (simp add: find_files_def)
  then have "filter (\<lambda>x. x_parent_id x = Some (str k)) (filter keepX (fileitem d))
      = filter (\<lambda>x. x_parent_id x = Some (str k)) (fileitem d)"
    by (rule filter_filter_implied)
  then have 3: "find_files d' (Some (str k)) = ?xs"
    by (simp only: find_files_def X)
  from 1 2 3 e show ?case by simp
next
  case (3 n d)
  then show ?case by simp
next
  case (4 n d c cs)
  from "4.prems"(1) obtain e1 es1 where e1: "deletion_order n d (f_id c) = Some e1"
    and es1: "deletion_orders n d cs = Some es1" and es: "es = e1 @ es1"
    by (auto split: option.splits)
  have a: "deletion_order n d' (f_id c) = Some e1"
    using "4.IH"(1) [OF e1 "4.prems"(2,3)] "4.prems"(4,5) es by auto
  have b: "deletion_orders n d' cs = Some es1"
    using "4.IH"(2) [OF e1 es1 "4.prems"(2,3)] "4.prems"(4,5) es by auto
  from a b es show ?case by simp
qed

lemma removed_unique_ids: "unique_ids d \<Longrightarrow> removed evs d d' \<Longrightarrow> unique_ids d'"
  by (simp add: unique_ids_def removed_def distinct_map_filter)

lemma removed_append: "removed e1 d d1 \<Longrightarrow> removed e2 d1 d2 \<Longrightarrow> removed (e1 @ e2) d d2"
  by (auto simp: removed_def intro: filter_cong)

lemma removed_delete_one_folder:
  "unique_ids d \<Longrightarrow> removed [DelFolder k] d (delete_one_folder k d)"
  by (simp add: removed_def delete_one_folder_def unique_ids_def delete_first_distinct)

lemma removed_delete_files:
  assumes "unique_ids d"
  shows "removed (map (\<lambda>x. DelFile (x_id x)) xs) d (fst (fold delete_file_inside xs (d, fs)))"
proof -
  have "filter (\<lambda>x. x_id x \<notin> x_id ` set xs) (fileitem d)
      = filter (\<lambda>x. DelFile (x_id x) \<notin> set (map (\<lambda>x. DelFile (x_id x)) xs)) (fileitem d)"
    by (rule filter_cong) auto
  moreover have "filter (\<lambda>f. DelFolder (f_id f) \<notin> set (map (\<lambda>x. DelFile (x_id x)) xs)) (folder d) = folder d"
    by (rule filter_True) auto
  ultimately show ?thesis
    using assms by (simp add: removed_def unique_ids_def fold_delete_file_inside)
qed

lemma removed_keeps_order:
  assumes "removed e0 d d1" and "set e \<inter> set e0 = {}"
  shows "deletion_order n d k = Some e \<Longrightarrow> deletion_order n d1 k = Some e"
proof -
  assume a: "deletion_order n d k = Some e"
  from assms(1) have F: "folder d1 = filter (\<lambda>f. DelFolder (f_id f) \<notin> set e0) (folder d)"
    and X: "fileitem d1 = filter (\<lambda>x. DelFile (x_id x) \<notin> set e0) (fileitem d)"
    by (simp_all add: removed_def)
  from assms(2) show ?thesis
    by (intro deletion_order_filter(1) [OF a F X]) auto
qed

lemma removed_keeps_orders:
  assumes "removed e0 d d1" and "set es \<inter> set e0 = {}"
  shows "deletion_orders n d cs = Some es \<Longrightarrow> deletion_orders n d1 cs = Some es"
proof -
  assume a: "deletion_orders n d cs = Some es"
  from assms(1) have F: "folder d1 = filter (\<lambda>f. DelFolder (f_id f) \<notin> set e0) (folder d)"
    and X: "fileitem d1 = filter (\<lambda>x. DelFile (x_id x) \<notin> set e0) (fileitem d)"
    by (simp_all add: removed_def)
  from assms(2) show ?thesis
    by (intro deletion_order_filter(2) [OF a F X]) auto
qed

lemma for_each_delete_total:
  assumes IH: "\<And>d fs k evs. unique_ids d \<Longrightarrow> deletion_order n d k = Some evs \<Longrightarrow> distinct evs \<Longrightarrow>
     \<exists>d' fs'. delete_folder_recursive n k (d, fs) = Returned (d', fs') \<and> removed evs d d'"
  shows "unique_ids d \<Longrightarrow> deletion_orders n d cs = Some es \<Longrightarrow> distinct es \<Longrightarrow>
     \<exists>d' fs'. for_each (\<lambda>sub. delete_folder_recursive n (f_id sub)) cs (d, fs) = Returned (d', fs')
        \<and> removed es d d'"
proof (induction cs arbitrary: d fs es)
  case Nil
  then show ?case by (simp add: removed_def)
next
  case (Cons c cs)
  from Cons.prems(2) obtain e1 es1 where e1: "deletion_order n d (f_id c) = Some e1"
    and es1: "deletion_orders n d cs = Some es1" and es: "es = e1 @ es1"
    by (auto split: option.splits)
  from Cons.prems(3) es have dis: "distinct e1" "distinct es1" "set es1 \<inter> set e1 = {}"
    by auto
  from IH [OF Cons.prems(1) e1 dis(1), of fs] obtain d1 fs1
    where r1: "delete_folder_recursive n (f_id c) (d, fs) = Returned (d1, fs1)" and m1: "removed e1 d d1"
    by blast
  have u1: "unique_ids d1" using Cons.prems(1) m1 by (rule removed_unique_ids)
  have o1: "deletion_orders n d1 cs = Some es1"
    using m1 dis(3) es1 by (rule removed_keeps_orders)
  from Cons.IH [OF u1 o1 dis(2), of fs1] obtain d2 fs2
    where r2: "for_each (\<lambda>sub. delete_folder_recursive n (f_id sub)) cs (d1, fs1) = Returned (d2, fs2)"
      and m2: "removed es1 d1 d2"
    by blast
  from r1 r2 have "for_each (\<lambda>sub. delete_folder_recursive n (f_id sub)) (c # cs) (d, fs) = Returned (d2, fs2)"
    by simp
  moreover from m1 m2 es have "removed es d d2" by (simp add: removed_append)
  ultimately show ?case by blast
qed

text \<open>
  A subtree that unfolds within the depth the interpreter allows is deleted in its
  depth-first order, and the call returns.
\<close>

lemma delete_folder_recursive_total:
  "unique_ids d \<Longrightarrow> deletion_order n d k = Some evs \<Longrightarrow> distinct evs \<Longrightarrow>
   \<exists>d' fs'. delete_folder_recursive n k (d, fs) = Returned (d', fs') \<and> removed evs d d'"
proof (induction n arbitrary: d fs k evs)
  case 0
  then show ?case by simp
next
  case (Suc n)
  let ?cs = "find_folders d (Some (str k))"
  let ?xs = "find_files d (Some (str k))"
  let ?F = "map (\<lambda>x. DelFile (x_id x)) ?xs"
  from Suc.prems(2) obtain es where es: "deletion_orders n d ?cs = Some es"
    and evs: "evs = ?F @ es @ [DelFolder k]"
    by (auto split: option.splits)
  obtain d1 fs1 where st1: "fold delete_file_inside ?xs (d, fs) = (d1, fs1)"
    by (cases "fold delete_file_inside ?xs (d, fs)")
  from removed_delete_files [OF Suc.prems(1), of ?xs fs] st1 have m1: "removed ?F d d1" by simp
  have u1: "unique_ids d1" using Suc.prems(1) m1 by (rule removed_unique_ids)
  from Suc.prems(3) evs have dis: "set es \<inter> set ?F = {}" "distinct es" "DelFolder k \<notin> set es"
    by auto
  have o1: "deletion_orders n d1 ?cs = Some es" using m1 dis(1) es by (rule removed_keeps_orders)
  have c1: "find_folders d1 (Some (str k)) = ?cs"
    using m1 by (auto simp: removed_def find_folders_def intro: filter_cong)
  from for_each_delete_total [OF Suc.IH u1 o1 dis(2), of fs1] obtain d2 fs2
    where r2: "for_each (\<lambda>sub. delete_folder_recursive n (f_id sub)) ?cs (d1, fs1) = Returned (d2, fs2)"
      and m2: "removed es d1 d2"
    by blast
  have u2: "unique_ids d2" using u1 m2 by (rule removed_unique_ids)
  have m3: "removed [DelFolder k] d2 (delete_one_folder k d2)"
    using u2 by (rule removed_delete_one_folder)
  have "delete_folder_recursive (Suc n) k (d, fs) = Returned (delete_one_folder k d2, fs2)"
    by (simp add: st1 c1 r2)
  moreover have "removed evs d (delete_one_folder k d2)"
    unfolding evs using m1 m2 m3 by (blast intro: removed_append)
  ultimately show ?case by blast
qed

lemma str_inject: "str a = str b \<Longrightarrow> a = b"
  by (cases a; cases b) simp

lemma in_subtree_trans:
  "in_subtree d b c \<Longrightarrow> in_subtree d a b \<Longrightarrow> in_subtree d a c"
  by (induction rule: in_subtree.induct) (auto intro: in_subtree.intros)

lemma in_subtree_of_child:
  "c \<in> set (find_folders d (Some (str k))) \<Longrightarrow> in_subtree d (f_id c) h \<Longrightarrow> in_subtree d k h"
proof -
  assume c: "c \<in> set (find_folders d (Some (str k)))" and h: "in_subtree d (f_id c) h"
  from c have "in_subtree d k (f_id c)"
    by (auto simp: find_folders_def intro: in_subtree.intros)
  with h show ?thesis by (rule in_subtree_trans)
qed

lemma same_folder:
  "unique_ids d \<Longrightarrow> f \<in> set (folder d) \<Longrightarrow> g \<in> set (folder d) \<Longrightarrow> f_id f = f_id g \<Longrightarrow> f = g"
  by (auto simp: unique_ids_def distinct_map dest: inj_onD)

lemma same_file:
  "unique_ids d \<Longrightarrow> x \<in> set (fileitem d) \<Longrightarrow> y \<in> set (fileitem d) \<Longrightarrow> x_id x = x_id y \<Longrightarrow> x = y"
  by (auto simp: unique_ids_def distinct_map dest: inj_onD)

lemma deletion_order_folders:
  "deletion_order n d k = Some e \<Longrightarrow> DelFolder h \<in> set e \<Longrightarrow> in_subtree d k h"
  "deletion_orders n d cs = Some es \<Longrightarrow> set cs \<subseteq> set (folder d) \<Longrightarrow> DelFolder h \<in> set es \<Longrightarrow>
     \<exists>c \<in> set cs. in_subtree d (f_id c) h"
proof (induction n d k and n d cs arbitrary: e and es rule: deletion_order_deletion_orders.induct)
  case (1 d k)
  then show ?case by simp
next
  case (2 n d k)
  let ?cs = "find_folders d (Some (str k))"
  from "2.prems"(1) obtain es where es: "deletion_orders n d ?cs = Some es"
    and e: "e = map (\<lambda>x. DelFile (x_id x)) (find_files d (Some (str k))) @ es @ [DelFolder k]"
    by (auto split: option.splits)
  have sub: "set ?cs \<subseteq> set (folder d)" by (auto simp: find_folders_def)
  from "2.prems"(2) e have "h = k \<or> DelFolder h \<in> set es" by auto
  then show ?case
  proof
    assume "h = k"
    then show ?thesis by (simp add: in_subtree.root)
  next
    assume "DelFolder h \<in> set es"
    from "2.IH" [OF es sub this] obtain c where "c \<in> set ?cs" "in_subtree d (f_id c) h" by blast
    then show ?thesis by (rule in_subtree_of_child)
  qed
next
  case (3 n d)
  then show ?case by simp
next
  case (4 n d c cs)
  from "4.prems"(1) obtain e1 es1 where e1: "deletion_order n d (f_id c) = Some e1"
    and es1: "deletion_orders n d cs = Some es1" and es: "es = e1 @ es1"
    by (auto split: option.splits)
  from "4.prems"(3) es have "DelFolder h \<in> set e1 \<or> DelFolder h \<in> set es1" by auto
  then show ?case
  proof
    assume "DelFolder h \<in> set e1"
    from "4.IH"(1) [OF e1 this] show ?thesis by simp
  next
    assume "DelFolder h \<in> set es1"
    from "4.IH"(2) [OF e1 es1 _ this] "4.prems"(2) show ?thesis by auto
  qed
qed

lemma deletion_order_files:
  "deletion_order n d k = Some e \<Longrightarrow> DelFile y \<in> set e \<Longrightarrow>
     \<exists>x \<in> set (fileitem d). x_id x = y \<and> (\<exists>p. x_parent_id x = Some (str p) \<and> DelFolder p \<in> set e)"
  "deletion_orders n d cs = Some es \<Longrightarrow> DelFile y \<in> set es \<Longrightarrow>
     \<exists>x \<in> set (fileitem d). x_id x = y \<and> (\<exists>p. x_parent_id x = Some (str p) \<and> DelFolder p \<in> set es)"
proof (induction n d k and n d cs arbitrary: e and es rule: deletion_order_deletion_orders.induct)
  case (1 d k)
  then show ?case by simp
next
  case (2 n d k)
  let ?cs = "find_folders d (Some (str k))"
  let ?xs = "find_files d (Some (str k))"
  from "2.prems"(1) obtain es where es: "deletion_orders n d ?cs = Some es"
    and e: "e = map (\<lambda>x. DelFile (x_id x)) ?xs @ es @ [DelFolder k]"
    by (auto split: option.splits)
  from "2.prems"(2) e have "y \<in> x_id ` set ?xs \<or> DelFile y \<in> set es" by auto
  then show ?case
  proof
    assume "y \<in> x_id ` set ?xs"
    then obtain x where "x \<in> set (fileitem d)" "x_id x = y" "x_parent_id x = Some (str k)"
      by (auto simp: find_files_def)
    moreover have "DelFolder k \<in> set e" using e by simp
    ultimately show ?thesis by blast
  next
    assume "DelFile y \<in> set es"
    from "2.IH" [OF es this] e show ?thesis by auto
  qed
next
  case (3 n d)
  then show ?case by simp
next
  case (4 n d c cs)
  from "4.prems"(1) obtain e1 es1 where e1: "deletion_order n d (f_id c) = Some e1"
    and es1: "deletion_orders n d cs = Some es1" and es: "es = e1 @ es1"
    by (auto split: option.splits)
  from "4.prems"(2) es have "DelFile y \<in> set e1 \<or> DelFile y \<in> set es1" by auto
  then show ?case
  proof
    assume "DelFile y \<in> set e1"
    from "4.IH"(1) [OF e1 this] es show ?thesis by auto
  next
    assume "DelFile y \<in> set es1"
    from "4.IH"(2) [OF e1 es1 this] es show ?thesis by auto
  qed
qed

lemma deletion_order_more_fuel:
  "deletion_order n d k = Some e \<Longrightarrow> deletion_order (Suc n) d k = Some e"
  "deletion_orders n d cs = Some es \<Longrightarrow> deletion_orders (Suc n) d cs = Some es"
proof (induction n d k and n d cs arbitrary: e and es rule: deletion_order_deletion_orders.induct)
  case (1 d k)
  then show ?case by simp
next
  case (2 n d k)
  from "2.prems" obtain es where es: "deletion_orders n d (find_folders d (Some (str k))) = Some es"
    and e: "e = map (\<lambda>x. DelFile (x_id x)) (find_files d (Some (str k))) @ es @ [DelFolder k]"
    by (auto split: option.splits)
  from "2.IH" [OF es] e show ?case by simp
next
  case (3 n d)
  then show ?case by simp
next
  case (4 n d c cs)
  from "4.prems" obtain e1 es1 where e1: "deletion_order n d (f_id c) = Some e1"
    and es1: "deletion_orders n d cs = Some es1" and es: "es = e1 @ es1"
    by (auto split: option.splits)
  from "4.IH"(1) [OF e1] "4.IH"(2) [OF e1 es1] es show ?case by simp
qed

lemma deletion_orders_member:
  "deletion_orders n d cs = Some es \<Longrightarrow> c \<in> set cs \<Longrightarrow> \<exists>e. deletion_order n d (f_id c) = Some e"
  by (induction cs arbitrary: es) (auto split: option.splits)

lemma deletion_order_below:
  "in_subtree d k h \<Longrightarrow> deletion_order n d k = Some e \<Longrightarrow> \<exists>e'. deletion_order n d h = Some e'"
proof (induction arbitrary: e rule: in_subtree.induct)
  case root
  then show ?case by blast
next
  case (child p f)
  from child.IH [OF child.prems] obtain ep where ep: "deletion_order n d p = Some ep" ..
  then obtain m where n: "n = Suc m" by (cases n) auto
  with ep obtain es where es: "deletion_orders m d (find_folders d (Some (str p))) = Some es"
    by (auto split: option.splits)
  from child.hyps have "f \<in> set (find_folders d (Some (str p)))" by (simp add: find_folders_def)
  from deletion_orders_member [OF es this] obtain ef where "deletion_order m d (f_id f) = Some ef" ..
  then have "deletion_order (Suc m) d (f_id f) = Some ef" by (rule deletion_order_more_fuel)
  with n show ?case by blast
qed

lemma no_cycle_through_child:
  "deletion_order n d k = Some e \<Longrightarrow> c \<in> set (find_folders d (Some (str k))) \<Longrightarrow>
   in_subtree d (f_id c) k \<Longrightarrow> False"
proof (induction n arbitrary: k c e)
  case 0
  then show ?case by simp
next
  case (Suc n)
  from Suc.prems(1) obtain es where es: "deletion_orders n d (find_folders d (Some (str k))) = Some es"
    by (auto split: option.splits)
  from deletion_orders_member [OF es Suc.prems(2)] obtain ec
    where ec: "deletion_order n d (f_id c) = Some ec" ..
  from deletion_order_below [OF Suc.prems(3) ec] obtain e' where "deletion_order n d k = Some e'" ..
  from Suc.IH [OF this Suc.prems(2,3)] show ?case .
qed

lemma in_subtree_linear:
  "in_subtree d a h \<Longrightarrow> unique_ids d \<Longrightarrow> in_subtree d b h \<Longrightarrow> in_subtree d a b \<or> in_subtree d b a"
proof (induction rule: in_subtree.induct)
  case root
  then show ?case by simp
next
  case (child p f)
  from child.prems(2) show ?case
  proof (cases rule: in_subtree.cases)
    case root
    with child.hyps have "in_subtree d a b" by (auto intro: in_subtree.child)
    then show ?thesis ..
  next
    case (child p' f')
    from same_folder [OF child.prems(1) \<open>f \<in> set (folder d)\<close> child(3)] child(1)
    have "f = f'" by simp
    with \<open>f_parent_id f = Some (str p)\<close> child(4) have "p = p'" by (simp add: str_inject)
    with child(2) have "in_subtree d b p" by simp
    with child.IH child.prems(1) show ?thesis by blast
  qed
qed

lemma sibling_subtrees_disjoint:
  assumes u: "unique_ids d" and o: "deletion_order n d k = Some e"
    and c1: "c1 \<in> set (find_folders d (Some (str k)))"
    and c2: "c2 \<in> set (find_folders d (Some (str k)))"
    and ne: "f_id c1 \<noteq> f_id c2"
    and h1: "in_subtree d (f_id c1) h" and h2: "in_subtree d (f_id c2) h"
  shows False
proof -
  have one: "\<And>a b. a \<in> set (find_folders d (Some (str k))) \<Longrightarrow> b \<in> set (find_folders d (Some (str k)))
      \<Longrightarrow> f_id a \<noteq> f_id b \<Longrightarrow> in_subtree d (f_id a) (f_id b) \<Longrightarrow> False"
  proof -
    fix a b
    assume a: "a \<in> set (find_folders d (Some (str k)))" and b: "b \<in> set (find_folders d (Some (str k)))"
      and ab: "f_id a \<noteq> f_id b" and s: "in_subtree d (f_id a) (f_id b)"
    from s show False
    proof (cases rule: in_subtree.cases)
      case root
      with ab show ?thesis by simp
    next
      case (child p f)
      from b have b': "b \<in> set (folder d)" "f_parent_id b = Some (str k)"
        by (simp_all add: find_folders_def)
      from same_folder [OF u child(3) b'(1)] child(1) have "f = b" by simp
      with child(4) b'(2) have "p = k" by (simp add: str_inject)
      with child(2) have "in_subtree d (f_id a) k" by simp
      from no_cycle_through_child [OF o a this] show ?thesis .
    qed
  qed
  from in_subtree_linear [OF h1 u h2] show False
  proof
    assume "in_subtree d (f_id c1) (f_id c2)"
    from one [OF c1 c2 ne this] show False .
  next
    assume "in_subtree d (f_id c2) (f_id c1)"
    from one [OF c2 c1 ne [symmetric] this] show False .
  qed
qed

lemma deletion_order_distinct:
  "deletion_order n d k = Some e \<Longrightarrow> unique_ids d \<Longrightarrow> distinct e"
  "deletion_orders n d cs = Some es \<Longrightarrow> unique_ids d \<Longrightarrow>
     set cs \<subseteq> set (find_folders d (Some (str k0))) \<Longrightarrow> distinct (map f_id cs) \<Longrightarrow>
     deletion_order m d k0 = Some e0 \<Longrightarrow> distinct es"
proof (induction n d k and n d cs arbitrary: e and es k0 m e0
    rule: deletion_order_deletion_orders.induct)
  case (1 d k)
  then show ?case by simp
next
  case (2 n d k)
  let ?cs = "find_folders d (Some (str k))"
  let ?xs = "find_files d (Some (str k))"
  let ?F = "map (\<lambda>x. DelFile (x_id x)) ?xs"
  note u = "2.prems"(2)
  from "2.prems"(1) obtain es where es: "deletion_orders n d ?cs = Some es"
    and e: "e = ?F @ es @ [DelFolder k]"
    by (auto split: option.splits)
  have sub: "set ?cs \<subseteq> set (folder d)" by (auto simp: find_folders_def)
  have dcs: "distinct (map f_id ?cs)"
    using u by (simp add: unique_ids_def find_folders_def distinct_map_filter)
  have 1: "distinct es"
    using "2.IH" [OF es u _ dcs "2.prems"(1)] by simp
  have "distinct (map x_id ?xs)"
    using u by (simp add: unique_ids_def find_files_def distinct_map_filter)
  then have 2: "distinct ?F" by (simp add: distinct_map inj_on_def)
  have 3: "DelFolder k \<notin> set es"
  proof
    assume "DelFolder k \<in> set es"
    from deletion_order_folders(2) [OF es sub this] obtain c
      where "c \<in> set ?cs" "in_subtree d (f_id c) k" by blast
    from no_cycle_through_child [OF "2.prems"(1) this] show False .
  qed
  have 4: "set ?F \<inter> set es = {}"
  proof (rule ccontr)
    assume "set ?F \<inter> set es \<noteq> {}"
    then obtain x where x: "x \<in> set ?xs" and i: "DelFile (x_id x) \<in> set es" by auto
    from deletion_order_files(2) [OF es i] obtain x' p where x': "x' \<in> set (fileitem d)"
      "x_id x' = x_id x" "x_parent_id x' = Some (str p)" "DelFolder p \<in> set es"
      by blast
    from x have "x \<in> set (fileitem d)" "x_parent_id x = Some (str k)"
      by (simp_all add: find_files_def)
    with same_file [OF u x'(1) this(1) x'(2)] x'(3) have "p = k" by (simp add: str_inject)
    with x'(4) 3 show False by simp
  qed
  from 1 2 3 4 e show ?case by auto
next
  case (3 n d)
  then show ?case by simp
next
  case (4 n d c cs)
  note u = "4.prems"(2)
  from "4.prems"(1) obtain e1 es1 where e1: "deletion_order n d (f_id c) = Some e1"
    and es1: "deletion_orders n d cs = Some es1" and es: "es = e1 @ es1"
    by (auto split: option.splits)
  from "4.prems"(3) have c: "c \<in> set (find_folders d (Some (str k0)))"
    and cs: "set cs \<subseteq> set (find_folders d (Some (str k0)))" by simp_all
  from cs have sub: "set cs \<subseteq> set (folder d)" by (auto simp: find_folders_def)
  from "4.prems"(4) have dc: "f_id c \<notin> f_id ` set cs" "distinct (map f_id cs)" by simp_all
  have 1: "distinct e1" using "4.IH"(1) [OF e1 u] .
  have 2: "distinct es1" using "4.IH"(2) [OF e1 es1 u cs dc(2) "4.prems"(5)] .
  have folders: "\<And>h. DelFolder h \<in> set e1 \<Longrightarrow> DelFolder h \<in> set es1 \<Longrightarrow> False"
  proof -
    fix h assume a: "DelFolder h \<in> set e1" and b: "DelFolder h \<in> set es1"
    from deletion_order_folders(1) [OF e1 a] have h1: "in_subtree d (f_id c) h" .
    from deletion_order_folders(2) [OF es1 sub b] obtain c'
      where c': "c' \<in> set cs" and h2: "in_subtree d (f_id c') h" by blast
    from c' dc(1) have ne: "f_id c \<noteq> f_id c'" by auto
    from c' cs have "c' \<in> set (find_folders d (Some (str k0)))" by blast
    from sibling_subtrees_disjoint [OF u "4.prems"(5) c this ne h1 h2] show False .
  qed
  have files: "\<And>y. DelFile y \<in> set e1 \<Longrightarrow> DelFile y \<in> set es1 \<Longrightarrow> False"
  proof -
    fix y assume a: "DelFile y \<in> set e1" and b: "DelFile y \<in> set es1"
    from deletion_order_files(1) [OF e1 a] obtain x p where x: "x \<in> set (fileitem d)" "x_id x = y"
      "x_parent_id x = Some (str p)" "DelFolder p \<in> set e1" by blast
    from deletion_order_files(2) [OF es1 b] obtain x' p' where x': "x' \<in> set (fileitem d)" "x_id x' = y"
      "x_parent_id x' = Some (str p')" "DelFolder p' \<in> set es1" by blast
    from same_file [OF u x(1) x'(1)] x(2) x'(2) have "x = x'" by simp
    with x(3) x'(3) have "p = p'" by (simp add: str_inject)
    with x(4) x'(4) folders show False by blast
  qed
  have 3: "set e1 \<inter> set es1 = {}"
  proof (rule ccontr)
    assume "set e1 \<inter> set es1 \<noteq> {}"
    then obtain ev where ev: "ev \<in> set e1" "ev \<in> set es1" by auto
    show False
    proof (cases ev)
      case (DelFile y)
      with ev files show ?thesis by blast
    next
      case (DelFolder h)
      with ev folders show ?thesis by blast
    qed
  qed
  from 1 2 3 es show ?case by simp
qed








lemma deletion_order_closed:
  "deletion_order n d k = Some e \<Longrightarrow> DelFolder p \<in> set e \<Longrightarrow>
     (\<forall>c \<in> set (find_folders d (Some (str p))). DelFolder (f_id c) \<in> set e)
     \<and> (\<forall>x \<in> set (find_files d (Some (str p))). DelFile (x_id x) \<in> set e)"
  "deletion_orders n d cs = Some es \<Longrightarrow> DelFolder p \<in> set es \<Longrightarrow>
     (\<forall>c \<in> set (find_folders d (Some (str p))). DelFolder (f_id c) \<in> set es)
     \<and> (\<forall>x \<in> set (find_files d (Some (str p))). DelFile (x_id x) \<in> set es)"
proof (induction n d k and n d cs arbitrary: e and es rule: deletion_order_deletion_orders.induct)
  case (1 d k)
  then show ?case by simp
next
  case (2 n d k)
  let ?cs = "find_folders d (Some (str k))"
  let ?xs = "find_files d (Some (str k))"
  from "2.prems"(1) obtain es where es: "deletion_orders n d ?cs = Some es"
    and e: "e = map (\<lambda>x. DelFile (x_id x)) ?xs @ es @ [DelFolder k]"
    by (auto split: option.splits)
  from "2.prems"(2) e have "p = k \<or> DelFolder p \<in> set es" by auto
  then show ?case
  proof
    assume "p = k"
    with deletion_orders_has_children [OF es] e show ?thesis by auto
  next
    assume "DelFolder p \<in> set es"
    from "2.IH" [OF es this] e show ?thesis by auto
  qed
next
  case (3 n d)
  then show ?case by simp
next
  case (4 n d c cs)
  from "4.prems"(1) obtain e1 es1 where e1: "deletion_order n d (f_id c) = Some e1"
    and es1: "deletion_orders n d cs = Some es1" and es: "es = e1 @ es1"
    by (auto split: option.splits)
  from "4.prems"(2) es have "DelFolder p \<in> set e1 \<or> DelFolder p \<in> set es1" by auto
  then show ?case
  proof
    assume "DelFolder p \<in> set e1"
    from "4.IH"(1) [OF e1 this] es show ?thesis by auto
  next
    assume "DelFolder p \<in> set es1"
    from "4.IH"(2) [OF e1 es1 this] es show ?thesis by auto
  qed
qed

lemma in_subtree_deleted:
  "in_subtree d k h \<Longrightarrow> deletion_order n d k = Some e \<Longrightarrow> DelFolder h \<in> set e"
proof (induction rule: in_subtree.induct)
  case root
  then show ?case by (rule deletion_order_has_root)
next
  case (child p f)
  from child.hyps have "f \<in> set (find_folders d (Some (str p)))" by (simp add: find_folders_def)
  with deletion_order_closed(1) [OF child.prems child.IH [OF child.prems]] show ?case by blast
qed



lemmas tree_defs = db_tree_def folder_a_def folder_b_def folder_c_def folder_d_def folder_e_def
  file_1_def file_2_def file_3_def id_a_def id_b_def id_c_def id_d_def id_e_def id_1_def id_2_def id_3_def

lemma unique_ids_tree: "unique_ids db_tree"
  by (simp add: unique_ids_def tree_defs)

lemma find_a_tree: "find_one_folder db_tree (Some id_a) = Some folder_a"
  by (simp add: find_one_folder_def tree_defs)

lemma deletion_order_tree:
  "deletion_order (Suc (Suc (Suc 0))) db_tree id_a = Some order_of_a"
  by (simp add: find_folders_def find_files_def order_of_a_def tree_defs)

subsection \<open>The deletion order is defined exactly on subtrees without a cycle\<close>

lemma deletion_order_fuel_le:
  "deletion_order n d k = Some e \<Longrightarrow> n \<le> m \<Longrightarrow> deletion_order m d k = Some e"
proof (induction m)
  case 0
  then show ?case by simp
next
  case (Suc m)
  show ?case
  proof (cases "n = Suc m")
    case True
    with Suc.prems show ?thesis by simp
  next
    case False
    with Suc.prems have "n \<le> m" by simp
    from Suc.IH [OF Suc.prems(1) this] show ?thesis by (rule deletion_order_more_fuel(1))
  qed
qed

lemma deletion_orders_fuel_le:
  "deletion_orders n d cs = Some es \<Longrightarrow> n \<le> m \<Longrightarrow> deletion_orders m d cs = Some es"
proof (induction m)
  case 0
  then show ?case by simp
next
  case (Suc m)
  show ?case
  proof (cases "n = Suc m")
    case True
    with Suc.prems show ?thesis by simp
  next
    case False
    with Suc.prems have "n \<le> m" by simp
    from Suc.IH [OF Suc.prems(1) this] show ?thesis by (rule deletion_order_more_fuel(2))
  qed
qed

lemma deletion_orders_defined:
  "(\<forall>c \<in> set cs. \<exists>n e. deletion_order n d (f_id c) = Some e)
     \<Longrightarrow> \<exists>n es. deletion_orders n d cs = Some es"
proof (induction cs)
  case Nil
  show ?case by simp
next
  case (Cons c cs)
  from Cons.prems obtain n1 e1 where 1: "deletion_order n1 d (f_id c) = Some e1" by auto
  from Cons obtain n2 es where 2: "deletion_orders n2 d cs = Some es" by auto
  from 1 have "deletion_order (max n1 n2) d (f_id c) = Some e1"
    by (rule deletion_order_fuel_le) simp
  moreover from 2 have "deletion_orders (max n1 n2) d cs = Some es"
    by (rule deletion_orders_fuel_le) simp
  ultimately have "deletion_orders (max n1 n2) d (c # cs) = Some (e1 @ es)" by simp
  then show ?case by blast
qed

lemma cycle_free_defined:
  assumes cf: "cycle_free d k"
  shows "in_subtree d k h \<Longrightarrow> \<exists>n e. deletion_order n d h = Some e"
proof (induction "card (f_id ` set (folder d) - {a. in_subtree d a h})" arbitrary: h rule: less_induct)
  case less
  let ?ids = "f_id ` set (folder d)"
  have "\<forall>c \<in> set (find_folders d (Some (str h))). \<exists>n e. deletion_order n d (f_id c) = Some e"
  proof
    fix c assume c: "c \<in> set (find_folders d (Some (str h)))"
    then have c': "c \<in> set (folder d)" "f_parent_id c = Some (str h)"
      by (simp_all add: find_folders_def)
    from less.prems c' have sub: "in_subtree d k (f_id c)" by (rule in_subtree.child)
    from cf less.prems c have out: "\<not> in_subtree d (f_id c) h" by (simp add: cycle_free_def)
    have "{a. in_subtree d a h} \<subseteq> {a. in_subtree d a (f_id c)}"
      using c' by (auto intro: in_subtree.child)
    then have "?ids - {a. in_subtree d a (f_id c)} \<subseteq> ?ids - {a. in_subtree d a h}" by blast
    moreover have "f_id c \<in> ?ids - {a. in_subtree d a h}" using c'(1) out by simp
    moreover have "f_id c \<notin> ?ids - {a. in_subtree d a (f_id c)}" by (simp add: in_subtree.root)
    ultimately have "?ids - {a. in_subtree d a (f_id c)} \<subset> ?ids - {a. in_subtree d a h}" by blast
    then have "card (?ids - {a. in_subtree d a (f_id c)}) < card (?ids - {a. in_subtree d a h})"
      by (intro psubset_card_mono) simp_all
    from less.hyps [OF this sub] show "\<exists>n e. deletion_order n d (f_id c) = Some e" .
  qed
  from deletion_orders_defined [OF this] obtain n es
    where "deletion_orders n d (find_folders d (Some (str h))) = Some es" by blast
  then have "\<exists>e. deletion_order (Suc n) d h = Some e" by simp
  then show ?case by blast
qed

lemma deletion_order_defined_iff:
  "(\<exists>n e. deletion_order n d k = Some e) = cycle_free d k"
proof
  assume "\<exists>n e. deletion_order n d k = Some e"
  then obtain n e where o: "deletion_order n d k = Some e" by blast
  show "cycle_free d k"
    unfolding cycle_free_def
  proof (intro allI impI)
    fix h c
    assume h: "in_subtree d k h" and c: "c \<in> set (find_folders d (Some (str h)))"
    from deletion_order_below [OF h o] obtain e' where "deletion_order n d h = Some e'" ..
    from no_cycle_through_child [OF this c] show "\<not> in_subtree d (f_id c) h" by blast
  qed
next
  assume "cycle_free d k"
  from cycle_free_defined [OF this in_subtree.root] show "\<exists>n e. deletion_order n d k = Some e" .
qed

lemma deletion_order_tree_1000: "deletion_order 1000 db_tree id_a = Some order_of_a"
  using deletion_order_tree by (rule deletion_order_fuel_le) simp


lemma delete_tree_cut:
  "delete_item (Some db_tree) 2 empty_disk (ustr ''00000000000000000000000a'') Folder
     = Aborted RecursionError (db_tree\<lparr>fileitem := [file_2, file_3], journal := [DelFile id_1]\<rparr>) empty_disk"
  by (simp add: delete_item_def oid_def ObjectId_a find_a_tree eval_nat_numeral)
     (simp add: find_files_def find_folders_def delete_file_inside_def delete_one_file_def
        remove_from_disk_def or_None_def path_exists_def empty_disk_def tree_defs)

subsection \<open>What a recursive deletion leaves alone\<close>

lemma in_subtree_mono:
  "in_subtree d' k h \<Longrightarrow> set (folder d') \<subseteq> set (folder d) \<Longrightarrow> in_subtree d k h"
  by (induction rule: in_subtree.induct) (auto intro: in_subtree.intros)

lemma file_in_subtree_mono:
  "file_in_subtree d' k x \<Longrightarrow> set (folder d') \<subseteq> set (folder d) \<Longrightarrow> file_in_subtree d k x"
  by (auto simp: file_in_subtree_def dest: in_subtree_mono)

lemma file_in_subtree_of_child:
  "c \<in> set (find_folders d (Some (str k))) \<Longrightarrow> file_in_subtree d (f_id c) x \<Longrightarrow> file_in_subtree d k x"
  by (auto simp: file_in_subtree_def dest: in_subtree_of_child)

lemma set_delete_first: "set (delete_first P xs) \<subseteq> set xs"
  by (induction xs) auto

lemma delete_files_frame:
  assumes u: "unique_ids d"
  shows "frame d k (fst (fold delete_file_inside (find_files d (Some (str k))) (d, fs)))"
    and "folder (fst (fold delete_file_inside (find_files d (Some (str k))) (d, fs))) = folder d"
proof -
  let ?xs = "find_files d (Some (str k))"
  let ?d1 = "fst (fold delete_file_inside ?xs (d, fs))"
  from u have eq: "?d1 = d\<lparr>fileitem := filter (\<lambda>x. x_id x \<notin> x_id ` set ?xs) (fileitem d),
          journal := journal d @ map (\<lambda>x. DelFile (x_id x)) ?xs\<rparr>"
    by (simp add: unique_ids_def fold_delete_file_inside)
  show f: "folder ?d1 = folder d" by (simp add: eq)
  have u1: "unique_ids ?d1" using u by (simp add: eq unique_ids_def distinct_map_filter)
  have "\<forall>x \<in> set (fileitem d). \<not> file_in_subtree d k x \<longrightarrow> x \<in> set (fileitem ?d1)"
  proof (intro ballI impI)
    fix x assume x: "x \<in> set (fileitem d)" and n: "\<not> file_in_subtree d k x"
    have "x_id x \<notin> x_id ` set ?xs"
    proof
      assume "x_id x \<in> x_id ` set ?xs"
      then obtain x' where x': "x' \<in> set (fileitem d)" "x_parent_id x' = Some (str k)" "x_id x' = x_id x"
        by (auto simp: find_files_def)
      from same_file [OF u x'(1) x x'(3)] x'(2) have "x_parent_id x = Some (str k)" by simp
      then have "file_in_subtree d k x" by (auto simp: file_in_subtree_def intro: in_subtree.root)
      with n show False ..
    qed
    with x show "x \<in> set (fileitem ?d1)" by (simp add: eq)
  qed
  with u1 f show "frame d k ?d1" by (simp add: frame_def)
qed

lemma delete_one_folder_frame:
  assumes u: "unique_ids d"
  shows "unique_ids (delete_one_folder k d)"
    and "set (folder (delete_one_folder k d)) \<subseteq> set (folder d)"
    and "\<And>g. g \<in> set (folder d) \<Longrightarrow> f_id g \<noteq> k \<Longrightarrow> g \<in> set (folder (delete_one_folder k d))"
    and "fileitem (delete_one_folder k d) = fileitem d"
  using u
  by (simp_all add: delete_one_folder_def unique_ids_def delete_first_distinct distinct_map_filter)

lemma for_each_frame:
  assumes rec: "\<And>k st. unique_ids (fst st) \<Longrightarrow> frame (fst st) k (fst (state_of (rec k st)))"
  shows "unique_ids (fst st) \<Longrightarrow>
     set cs \<subseteq> set (find_folders d0 (Some (str k))) \<Longrightarrow> set (folder (fst st)) \<subseteq> set (folder d0) \<Longrightarrow>
     unique_ids (fst (state_of (for_each (\<lambda>sub. rec (f_id sub)) cs st)))
     \<and> set (folder (fst (state_of (for_each (\<lambda>sub. rec (f_id sub)) cs st)))) \<subseteq> set (folder (fst st))
     \<and> (\<forall>g \<in> set (folder (fst st)). \<not> in_subtree d0 k (f_id g)
           \<longrightarrow> g \<in> set (folder (fst (state_of (for_each (\<lambda>sub. rec (f_id sub)) cs st)))))
     \<and> (\<forall>x \<in> set (fileitem (fst st)). \<not> file_in_subtree d0 k x
           \<longrightarrow> x \<in> set (fileitem (fst (state_of (for_each (\<lambda>sub. rec (f_id sub)) cs st)))))"
proof (induction cs arbitrary: st)
  case Nil
  then show ?case by simp
next
  case (Cons c cs)
  let ?s1 = "state_of (rec (f_id c) st)"
  let ?st' = "state_of (for_each (\<lambda>sub. rec (f_id sub)) (c # cs) st)"
  from rec [OF Cons.prems(1)] have fr: "frame (fst st) (f_id c) (fst ?s1)" .
  then have u1: "unique_ids (fst ?s1)" and sub1: "set (folder (fst ?s1)) \<subseteq> set (folder (fst st))"
    by (simp_all add: frame_def)
  from Cons.prems(2) have c: "c \<in> set (find_folders d0 (Some (str k)))"
    and cs: "set cs \<subseteq> set (find_folders d0 (Some (str k)))" by simp_all
  from sub1 Cons.prems(3) have sub0: "set (folder (fst ?s1)) \<subseteq> set (folder d0)" by blast
  have keepF1: "\<forall>g \<in> set (folder (fst st)). \<not> in_subtree d0 k (f_id g) \<longrightarrow> g \<in> set (folder (fst ?s1))"
  proof (intro ballI impI)
    fix g assume g: "g \<in> set (folder (fst st))" and n: "\<not> in_subtree d0 k (f_id g)"
    have "\<not> in_subtree (fst st) (f_id c) (f_id g)"
      using n in_subtree_mono [OF _ Cons.prems(3)] in_subtree_of_child [OF c] by blast
    with fr g show "g \<in> set (folder (fst ?s1))" by (simp add: frame_def)
  qed
  have keepX1: "\<forall>x \<in> set (fileitem (fst st)). \<not> file_in_subtree d0 k x \<longrightarrow> x \<in> set (fileitem (fst ?s1))"
  proof (intro ballI impI)
    fix x assume x: "x \<in> set (fileitem (fst st))" and n: "\<not> file_in_subtree d0 k x"
    have "\<not> file_in_subtree (fst st) (f_id c) x"
      using n file_in_subtree_mono [OF _ Cons.prems(3)] file_in_subtree_of_child [OF c] by blast
    with fr x show "x \<in> set (fileitem (fst ?s1))" by (simp add: frame_def)
  qed
  show ?case
  proof (cases "rec (f_id c) st")
    case (Raised e s1)
    then have "?st' = ?s1" by simp
    with u1 sub1 keepF1 keepX1 show ?thesis by simp
  next
    case (Returned s1)
    then have s1: "?s1 = s1" and eq: "?st' = state_of (for_each (\<lambda>sub. rec (f_id sub)) cs s1)"
      by simp_all
    from u1 sub0 s1 have u1': "unique_ids (fst s1)" and sub0': "set (folder (fst s1)) \<subseteq> set (folder d0)"
      by simp_all
    note IH = Cons.IH [OF u1' cs sub0', folded eq]
    from IH sub1 keepF1 keepX1 s1 show ?thesis
      unfolding eq [symmetric] by (auto simp del: for_each.simps)
  qed
qed

text \<open>
  Whether the recursion returns or is cut by the recursion limit, the state it leaves has
  every document from outside the subtree.
\<close>

lemma delete_folder_recursive_frame:
  "unique_ids (fst st) \<Longrightarrow> frame (fst st) k (fst (state_of (delete_folder_recursive n k st)))"
proof (induction n arbitrary: k st)
  case 0
  then show ?case by (simp add: frame_def)
next
  case (Suc n)
  obtain d fs where st: "st = (d, fs)" by (cases st)
  let ?st1 = "fold delete_file_inside (find_files d (Some (str k))) (d, fs)"
  let ?cs = "find_folders d (Some (str k))"
  let ?loop = "for_each (\<lambda>sub. delete_folder_recursive n (f_id sub)) ?cs ?st1"
  let ?st2 = "state_of ?loop"
  let ?st' = "state_of (delete_folder_recursive (Suc n) k st)"
  from Suc.prems have u: "unique_ids d" by (simp add: st)
  from delete_files_frame [OF u, of k fs]
  have fr1: "frame d k (fst ?st1)" and f1: "folder (fst ?st1) = folder d" by simp_all
  then have c1: "find_folders (fst ?st1) (Some (str k)) = ?cs" by (simp add: find_folders_def)
  from fr1 have u1: "unique_ids (fst ?st1)" by (simp add: frame_def)
  have sub1: "set (folder (fst ?st1)) \<subseteq> set (folder d)" by (simp add: f1)
  from for_each_frame [where rec = "delete_folder_recursive n", OF Suc.IH u1 subset_refl sub1]
  have u2: "unique_ids (fst ?st2)" and sub2: "set (folder (fst ?st2)) \<subseteq> set (folder (fst ?st1))"
    and kf: "\<forall>g \<in> set (folder (fst ?st1)). \<not> in_subtree d k (f_id g) \<longrightarrow> g \<in> set (folder (fst ?st2))"
    and kx: "\<forall>x \<in> set (fileitem (fst ?st1)). \<not> file_in_subtree d k x \<longrightarrow> x \<in> set (fileitem (fst ?st2))"
    by blast+
  note del = delete_one_folder_frame [OF u2, where k = k]
  have fin: "?st' = ?st2 \<or> ?st' = (delete_one_folder k (fst ?st2), snd ?st2)"
    by (cases ?loop) (simp_all add: st c1 Let_def)
  have a: "unique_ids (fst ?st')" using fin u2 del(1) by auto
  have b: "set (folder (fst ?st')) \<subseteq> set (folder d)"
    using fin del(2) sub2 f1 by auto
  have c: "\<forall>g \<in> set (folder d). \<not> in_subtree d k (f_id g) \<longrightarrow> g \<in> set (folder (fst ?st'))"
  proof (intro ballI impI)
    fix g assume g: "g \<in> set (folder d)" and n: "\<not> in_subtree d k (f_id g)"
    from n have "f_id g \<noteq> k" by (auto intro: in_subtree.root)
    moreover from g n kf f1 have "g \<in> set (folder (fst ?st2))" by simp
    ultimately show "g \<in> set (folder (fst ?st'))" using fin del(3) by auto
  qed
  have e: "\<forall>x \<in> set (fileitem d). \<not> file_in_subtree d k x \<longrightarrow> x \<in> set (fileitem (fst ?st'))"
  proof (intro ballI impI)
    fix x assume x: "x \<in> set (fileitem d)" and n: "\<not> file_in_subtree d k x"
    with fr1 have "x \<in> set (fileitem (fst ?st1))" by (simp add: frame_def)
    with kx n have "x \<in> set (fileitem (fst ?st2))" by blast
    then show "x \<in> set (fileitem (fst ?st'))" using fin del(4) by auto
  qed
  from a b c e show ?case by (simp add: frame_def st del: delete_folder_recursive.simps)
qed

text \<open>
  C10. In a store with unique ids, whenever \<open>delete_item\<close> of type \<open>Folder\<close> on the
  folder \<open>k\<close> has run, to its end or to the \<^verbatim>\<open>RecursionError\<close> that cut it short, every
  folder document whose id is not reached from \<open>k\<close> by parent links downward, and every
  file document whose parent is not, is a document of the store it leaves, unchanged.
\<close>

theorem delete_folder_frame:
  assumes "unique_ids d" and "ObjectId item_id = Some k"
    and "delete_item (Some d) limit fs item_id Folder = Done r d' fs'
         \<or> delete_item (Some d) limit fs item_id Folder = Aborted e d' fs'"
  shows "(\<forall>g \<in> set (folder d). \<not> in_subtree d k (f_id g) \<longrightarrow> g \<in> set (folder d'))
       \<and> (\<forall>x \<in> set (fileitem d). \<not> file_in_subtree d k x \<longrightarrow> x \<in> set (fileitem d'))"
proof -
  from assms(2) have ne: "item_id \<noteq> []" by (auto simp: ObjectId_def split: if_splits)
  from assms(2,3) ne obtain fdoc where f: "find_one_folder d (Some k) = Some fdoc"
    and r: "state_of (delete_folder_recursive limit (f_id fdoc) (d, fs)) = (d', fs')"
    by (auto simp: delete_item_def oid_def split: option.splits outcome.splits)
  from f have "f_id fdoc = k" by (auto simp: find_one_folder_def dest: find_Some_key)
  with delete_folder_recursive_frame [of "(d, fs)" k limit] r assms(1) have "frame d k d'" by simp
  then show ?thesis by (simp add: frame_def)
qed

lemma not_in_tree_e: "\<not> in_subtree db_tree id_a id_e"
proof
  assume "in_subtree db_tree id_a id_e"
  from in_subtree_deleted [OF this deletion_order_tree] show False
    by (simp add: order_of_a_def id_a_def id_b_def id_c_def id_d_def id_e_def)
qed

theorem delete_folder_frame_witness:
  "unique_ids db_tree \<and> ObjectId (ustr ''00000000000000000000000a'') = Some id_a
   \<and> folder_e \<in> set (folder db_tree) \<and> \<not> in_subtree db_tree id_a (f_id folder_e)
   \<and> file_3 \<in> set (fileitem db_tree) \<and> \<not> file_in_subtree db_tree id_a file_3
   \<and> (\<exists>d' fs'. delete_item (Some db_tree) 1000 disk_locked (ustr ''00000000000000000000000a'') Folder
                 = Done (Status ''ok'') d' fs'
         \<and> folder_e \<in> set (folder d') \<and> file_3 \<in> set (fileitem d'))
   \<and> (\<exists>d' fs'. delete_item (Some db_tree) 2 empty_disk (ustr ''00000000000000000000000a'') Folder
                 = Aborted RecursionError d' fs'
         \<and> folder_e \<in> set (folder d') \<and> file_3 \<in> set (fileitem d'))"
proof -
  have e: "folder_e \<in> set (folder db_tree)" "file_3 \<in> set (fileitem db_tree)"
    by (simp_all add: db_tree_def)
  have ne: "\<not> in_subtree db_tree id_a (f_id folder_e)"
    using not_in_tree_e by (simp add: folder_e_def)
  have nx: "\<not> file_in_subtree db_tree id_a file_3"
  proof
    assume "file_in_subtree db_tree id_a file_3"
    then obtain p where p: "str p = ustr ''00000000000000000000000e''" "in_subtree db_tree id_a p"
      by (auto simp: file_in_subtree_def file_3_def)
    from p(1) have "p = id_e" by (cases p) (simp add: id_e_def)
    with p(2) not_in_tree_e show False by simp
  qed
  have "distinct order_of_a"
    by (simp add: order_of_a_def id_a_def id_b_def id_c_def id_d_def id_1_def id_2_def)
  from delete_folder_recursive_total [OF unique_ids_tree deletion_order_tree_1000 this, of disk_locked]
  obtain d' fs' where "delete_folder_recursive 1000 id_a (db_tree, disk_locked) = Returned (d', fs')"
    by blast
  then have r: "delete_item (Some db_tree) 1000 disk_locked (ustr ''00000000000000000000000a'') Folder
                 = Done (Status ''ok'') d' fs'"
    by (simp add: delete_item_def oid_def ObjectId_a find_a_tree folder_a_def)
  from delete_folder_frame [OF unique_ids_tree ObjectId_a disjI1, OF r] e ne nx
  have k: "folder_e \<in> set (folder d')" "file_3 \<in> set (fileitem d')" by blast+
  note a = delete_tree_cut
  from delete_folder_frame [OF unique_ids_tree ObjectId_a disjI2, OF a] e ne nx
  have k2: "folder_e \<in> set (folder (db_tree\<lparr>fileitem := [file_2, file_3], journal := [DelFile id_1]\<rparr>))"
    "file_3 \<in> set (fileitem (db_tree\<lparr>fileitem := [file_2, file_3], journal := [DelFile id_1]\<rparr>))"
    by blast+
  from r k a k2 unique_ids_tree ObjectId_a e ne nx show ?thesis by blast
qed

subsection \<open>How the recursive deletion ends\<close>

lemma folder_delete_files: "folder (fst (fold delete_file_inside xs st)) = folder (fst st)"
  by (induction xs arbitrary: st) (simp_all add: delete_file_inside_def delete_one_file_def)

text \<open>The only exception of the recursion is the \<^verbatim>\<open>RecursionError\<close> of the interpreter.\<close>

lemma for_each_raises:
  assumes body: "\<And>x s e s'. body x s = Raised e s' \<Longrightarrow> e = RecursionError"
  shows "for_each body xs s = Raised e s' \<Longrightarrow> e = RecursionError"
proof (induction xs arbitrary: s)
  case Nil
  then show ?case by simp
next
  case (Cons x xs)
  show ?case
  proof (cases "body x s")
    case (Returned s1)
    with Cons.prems have "for_each body xs s1 = Raised e s'" by simp
    then show ?thesis by (rule Cons.IH)
  next
    case (Raised e1 s1)
    with Cons.prems have "e1 = e" by simp
    with body [OF Raised] show ?thesis by simp
  qed
qed

lemma delete_folder_recursive_raises:
  "delete_folder_recursive n k st = Raised e st' \<Longrightarrow> e = RecursionError"
proof (induction n arbitrary: k st e st')
  case 0
  then show ?case by simp
next
  case (Suc n)
  let ?st1 = "fold delete_file_inside (find_files (fst st) (Some (str k))) st"
  let ?loop = "for_each (\<lambda>sub. delete_folder_recursive n (f_id sub))
                 (find_folders (fst ?st1) (Some (str k))) ?st1"
  from Suc.prems have "?loop = Raised e st'"
    by (simp add: Let_def split: outcome.splits)
  then show ?case by (rule for_each_raises [rotated]) (rule Suc.IH)
qed




text \<open>
  The same holds of every cycle of parent links below the folder (in a store with unique
  ids): the recursion that meets it is cut by the recursion limit, whatever the limit.
\<close>

lemma in_subtree_restrict:
  "in_subtree d a b \<Longrightarrow> (\<forall>g \<in> set (folder d). in_subtree d (f_id g) b \<longrightarrow> g \<in> set (folder d'))
     \<Longrightarrow> in_subtree d' a b"
proof (induction rule: in_subtree.induct)
  case root
  show ?case by (rule in_subtree.root)
next
  case (child p f)
  have "\<forall>g \<in> set (folder d). in_subtree d (f_id g) p \<longrightarrow> g \<in> set (folder d')"
  proof (intro ballI impI)
    fix g assume g: "g \<in> set (folder d)" and "in_subtree d (f_id g) p"
    from this(2) child.hyps(2,3) have "in_subtree d (f_id g) (f_id f)" by (rule in_subtree.child)
    with child.prems g show "g \<in> set (folder d')" by blast
  qed
  then have "in_subtree d' a p" by (rule child.IH)
  moreover from child.prems child.hyps(2) have "f \<in> set (folder d')"
    by (blast intro: in_subtree.root)
  ultimately show ?case using child.hyps(3) by (rule in_subtree.child)
qed

lemma in_subtree_step:
  "in_subtree d k h \<Longrightarrow> h \<noteq> k \<Longrightarrow> \<exists>c \<in> set (find_folders d (Some (str k))). in_subtree d (f_id c) h"
proof (induction rule: in_subtree.induct)
  case root
  then show ?case by simp
next
  case (child p f)
  show ?case
  proof (cases "p = k")
    case True
    with child.hyps have "f \<in> set (find_folders d (Some (str k)))" by (simp add: find_folders_def)
    moreover have "in_subtree d (f_id f) (f_id f)" by (rule in_subtree.root)
    ultimately show ?thesis by blast
  next
    case False
    from child.IH [OF this] obtain c where c: "c \<in> set (find_folders d (Some (str k)))"
      "in_subtree d (f_id c) p" by blast
    from c(2) child.hyps(2,3) have "in_subtree d (f_id c) (f_id f)" by (rule in_subtree.child)
    with c(1) show ?thesis by blast
  qed
qed

lemma cycle_below_child:
  assumes "\<not> cycle_free d k"
  shows "\<exists>c \<in> set (find_folders d (Some (str k))). \<not> cycle_free d (f_id c)"
proof -
  from assms obtain h ch where h: "in_subtree d k h" and ch: "ch \<in> set (find_folders d (Some (str h)))"
    and up: "in_subtree d (f_id ch) h"
    by (auto simp: cycle_free_def)
  show ?thesis
  proof (cases "h = k")
    case True
    with ch up have "\<not> cycle_free d (f_id ch)" by (auto simp: cycle_free_def)
    with ch True show ?thesis by blast
  next
    case False
    from in_subtree_step [OF h this] obtain c where c: "c \<in> set (find_folders d (Some (str k)))"
      "in_subtree d (f_id c) h" by blast
    with ch up have "\<not> cycle_free d (f_id c)" by (auto simp: cycle_free_def)
    with c(1) show ?thesis by blast
  qed
qed

lemma cycle_stays:
  assumes cyc: "\<not> cycle_free d b" and free: "cycle_free d a" and fr: "frame d a d1"
  shows "\<not> cycle_free d1 b"
proof -
  from cyc obtain h ch where h: "in_subtree d b h" and ch: "ch \<in> set (find_folders d (Some (str h)))"
    and up: "in_subtree d (f_id ch) h"
    by (auto simp: cycle_free_def)
  have kept: "\<forall>g \<in> set (folder d). in_subtree d (f_id g) h \<longrightarrow> g \<in> set (folder d1)"
  proof (intro ballI impI)
    fix g assume g: "g \<in> set (folder d)" and gh: "in_subtree d (f_id g) h"
    have "\<not> in_subtree d a (f_id g)"
    proof
      assume "in_subtree d a (f_id g)"
      with gh have "in_subtree d a h" by (rule in_subtree_trans)
      with free ch up show False by (simp add: cycle_free_def)
    qed
    with fr g show "g \<in> set (folder d1)" by (simp add: frame_def)
  qed
  from h kept have 1: "in_subtree d1 b h" by (rule in_subtree_restrict)
  from up kept have 2: "in_subtree d1 (f_id ch) h" by (rule in_subtree_restrict)
  from ch have "ch \<in> set (folder d)" "f_parent_id ch = Some (str h)" by (simp_all add: find_folders_def)
  with kept up have 3: "ch \<in> set (find_folders d1 (Some (str h)))" by (simp add: find_folders_def)
  from 1 2 3 show ?thesis by (auto simp: cycle_free_def)
qed

lemma cycle_free_folders:
  assumes "folder d1 = folder d"
  shows "cycle_free d1 k = cycle_free d k"
proof -
  have "\<And>a b. in_subtree d1 a b = in_subtree d a b"
    using assms by (auto intro: in_subtree_mono)
  then show ?thesis by (simp add: cycle_free_def find_folders_def assms)
qed

lemma for_each_cycle:
  assumes IH: "\<And>k st. unique_ids (fst st) \<Longrightarrow> \<not> cycle_free (fst st) k
      \<Longrightarrow> \<exists>st'. delete_folder_recursive n k st = Raised RecursionError st'"
  shows "unique_ids (fst s) \<Longrightarrow> \<exists>c \<in> set cs. \<not> cycle_free (fst s) (f_id c)
     \<Longrightarrow> \<exists>s'. for_each (\<lambda>sub. delete_folder_recursive n (f_id sub)) cs s = Raised RecursionError s'"
proof (induction cs arbitrary: s)
  case Nil
  then show ?case by simp
next
  case (Cons c cs)
  show ?case
  proof (cases "delete_folder_recursive n (f_id c) s")
    case (Raised e s1)
    from delete_folder_recursive_raises [OF this] Raised show ?thesis by simp
  next
    case (Returned s1)
    with IH [OF Cons.prems(1), of "f_id c"] have free: "cycle_free (fst s) (f_id c)" by auto
    with Cons.prems(2) obtain b where b: "b \<in> set cs" "\<not> cycle_free (fst s) (f_id b)" by auto
    from delete_folder_recursive_frame [OF Cons.prems(1), of "f_id c" n] Returned
    have fr: "frame (fst s) (f_id c) (fst s1)" by simp
    then have u1: "unique_ids (fst s1)" by (simp add: frame_def)
    from b(2) free fr have "\<not> cycle_free (fst s1) (f_id b)" by (rule cycle_stays)
    with b(1) have "\<exists>c \<in> set cs. \<not> cycle_free (fst s1) (f_id c)" by blast
    from Cons.IH [OF u1 this] Returned show ?thesis by simp
  qed
qed

lemma cycle_raises:
  "unique_ids (fst st) \<Longrightarrow> \<not> cycle_free (fst st) k
     \<Longrightarrow> \<exists>st'. delete_folder_recursive n k st = Raised RecursionError st'"
proof (induction n arbitrary: k st)
  case 0
  show ?case by simp
next
  case (Suc n)
  obtain d fs where st: "st = (d, fs)" by (cases st)
  let ?st1 = "fold delete_file_inside (find_files d (Some (str k))) (d, fs)"
  let ?cs = "find_folders d (Some (str k))"
  from Suc.prems have u: "unique_ids d" and cyc: "\<not> cycle_free d k" by (simp_all add: st)
  have f1: "folder (fst ?st1) = folder d" by (simp add: folder_delete_files)
  then have c1: "find_folders (fst ?st1) (Some (str k)) = ?cs" by (simp add: find_folders_def)
  from delete_files_frame(1) [OF u, of k fs] have u1: "unique_ids (fst ?st1)" by (simp add: frame_def)
  from cycle_below_child [OF cyc] obtain c where "c \<in> set ?cs" "\<not> cycle_free d (f_id c)" by blast
  then have "\<exists>c \<in> set ?cs. \<not> cycle_free (fst ?st1) (f_id c)"
    using cycle_free_folders [OF f1] by blast
  from for_each_cycle [OF Suc.IH u1 this] obtain s'
    where "for_each (\<lambda>sub. delete_folder_recursive n (f_id sub)) ?cs ?st1 = Raised RecursionError s'"
    by blast
  then show ?case by (simp add: st c1)
qed

text \<open>
  A subtree without a cycle that does not unfold within the limit is nested deeper than
  the interpreter lets the recursion go, and the recursion on it is cut as well.
\<close>

lemma deletion_order_extend:
  "deletion_order n d1 k = Some e \<Longrightarrow>
     folder d1 = filter keepF (folder d) \<Longrightarrow> fileitem d1 = filter keepX (fileitem d) \<Longrightarrow>
     (\<forall>f \<in> set (folder d). \<not> keepF f \<longrightarrow> (\<forall>p. f_parent_id f = Some (str p) \<longrightarrow> DelFolder p \<notin> set e)) \<Longrightarrow>
     (\<forall>x \<in> set (fileitem d). \<not> keepX x \<longrightarrow> (\<forall>p. x_parent_id x = Some (str p) \<longrightarrow> DelFolder p \<notin> set e)) \<Longrightarrow>
     deletion_order n d k = Some e"
  "deletion_orders n d1 cs = Some es \<Longrightarrow>
     folder d1 = filter keepF (folder d) \<Longrightarrow> fileitem d1 = filter keepX (fileitem d) \<Longrightarrow>
     (\<forall>f \<in> set (folder d). \<not> keepF f \<longrightarrow> (\<forall>p. f_parent_id f = Some (str p) \<longrightarrow> DelFolder p \<notin> set es)) \<Longrightarrow>
     (\<forall>x \<in> set (fileitem d). \<not> keepX x \<longrightarrow> (\<forall>p. x_parent_id x = Some (str p) \<longrightarrow> DelFolder p \<notin> set es)) \<Longrightarrow>
     deletion_orders n d cs = Some es"
proof (induction n d1 k and n d1 cs arbitrary: e and es rule: deletion_order_deletion_orders.induct)
  case (1 d1 k)
  then show ?case by simp
next
  case (2 n d1 k)
  let ?cs = "find_folders d1 (Some (str k))"
  let ?xs = "find_files d1 (Some (str k))"
  from "2.prems"(1) obtain es where es: "deletion_orders n d1 ?cs = Some es"
    and e: "e = map (\<lambda>x. DelFile (x_id x)) ?xs @ es @ [DelFolder k]"
    by (auto split: option.splits)
  have sub: "set es \<subseteq> set e" and root: "DelFolder k \<in> set e" using e by auto
  note F = "2.prems"(2) and X = "2.prems"(3)
  have 1: "deletion_orders n d ?cs = Some es"
    using "2.IH" [OF es F X] "2.prems"(4,5) sub by blast
  from "2.prems"(4) root have "\<forall>f \<in> set (folder d). f_parent_id f = Some (str k) \<longrightarrow> keepF f"
    by blast
  then have "filter (\<lambda>f. f_parent_id f = Some (str k)) (filter keepF (folder d))
      = filter (\<lambda>f. f_parent_id f = Some (str k)) (folder d)"
    by (rule filter_filter_implied)
  then have 2: "find_folders d (Some (str k)) = ?cs"
    by (simp only: find_folders_def F)
  from "2.prems"(5) root have "\<forall>x \<in> set (fileitem d). x_parent_id x = Some (str k) \<longrightarrow> keepX x"
    by blast
  then have "filter (\<lambda>x. x_parent_id x = Some (str k)) (filter keepX (fileitem d))
      = filter (\<lambda>x. x_parent_id x = Some (str k)) (fileitem d)"
    by (rule filter_filter_implied)
  then have 3: "find_files d (Some (str k)) = ?xs"
    by (simp only: find_files_def X)
  from 1 2 3 e show ?case by simp
next
  case (3 n d1)
  then show ?case by simp
next
  case (4 n d1 c cs)
  from "4.prems"(1) obtain e1 es1 where e1: "deletion_order n d1 (f_id c) = Some e1"
    and es1: "deletion_orders n d1 cs = Some es1" and es: "es = e1 @ es1"
    by (auto split: option.splits)
  have a: "deletion_order n d (f_id c) = Some e1"
    using "4.IH"(1) [OF e1 "4.prems"(2,3)] "4.prems"(4,5) es by auto
  have b: "deletion_orders n d cs = Some es1"
    using "4.IH"(2) [OF e1 es1 "4.prems"(2,3)] "4.prems"(4,5) es by auto
  from a b es show ?case by simp
qed

lemma deletion_orders_folders:
  "deletion_orders n d cs = Some es \<Longrightarrow> DelFolder h \<in> set es \<Longrightarrow>
     \<exists>c \<in> set cs. in_subtree d (f_id c) h"
proof (induction cs arbitrary: es)
  case Nil
  then show ?case by simp
next
  case (Cons c cs)
  from Cons.prems(1) obtain e1 es1 where e1: "deletion_order n d (f_id c) = Some e1"
    and es1: "deletion_orders n d cs = Some es1" and es: "es = e1 @ es1"
    by (auto split: option.splits)
  from Cons.prems(2) es have "DelFolder h \<in> set e1 \<or> DelFolder h \<in> set es1" by auto
  then show ?case
  proof
    assume "DelFolder h \<in> set e1"
    from deletion_order_folders(1) [OF e1 this] show ?thesis by simp
  next
    assume "DelFolder h \<in> set es1"
    from Cons.IH [OF es1 this] show ?thesis by auto
  qed
qed

lemma cycle_free_child:
  "cycle_free d k \<Longrightarrow> c \<in> set (find_folders d (Some (str k))) \<Longrightarrow> cycle_free d (f_id c)"
  unfolding cycle_free_def by (blast dest: in_subtree_of_child)

lemma cycle_free_mono:
  assumes "cycle_free d k" and "set (folder d1) \<subseteq> set (folder d)"
  shows "cycle_free d1 k"
proof -
  have "\<And>p. set (find_folders d1 p) \<subseteq> set (find_folders d p)"
    using assms(2) by (auto simp: find_folders_def)
  with assms in_subtree_mono [OF _ assms(2)] show ?thesis
    unfolding cycle_free_def by blast
qed

lemma for_each_deep:
  assumes IH: "\<And>k st. unique_ids (fst st) \<Longrightarrow> cycle_free (fst st) k \<Longrightarrow> deletion_order n (fst st) k = None
      \<Longrightarrow> \<exists>st'. delete_folder_recursive n k st = Raised RecursionError st'"
  shows "unique_ids d \<Longrightarrow> cycle_free d k \<Longrightarrow> set cs \<subseteq> set (find_folders d (Some (str k)))
     \<Longrightarrow> distinct (map f_id cs) \<Longrightarrow> deletion_orders n d cs = None
     \<Longrightarrow> \<exists>s'. for_each (\<lambda>sub. delete_folder_recursive n (f_id sub)) cs (d, fs) = Raised RecursionError s'"
proof (induction cs arbitrary: d fs)
  case Nil
  then show ?case by simp
next
  case (Cons c cs)
  note u = Cons.prems(1) and cf = Cons.prems(2)
  from Cons.prems(3) have c: "c \<in> set (find_folders d (Some (str k)))"
    and cs: "set cs \<subseteq> set (find_folders d (Some (str k)))" by simp_all
  from Cons.prems(4) have nc: "f_id c \<notin> f_id ` set cs" and dist: "distinct (map f_id cs)" by simp_all
  show ?case
  proof (cases "deletion_order n d (f_id c)")
    case None
    from cf c have "cycle_free d (f_id c)" by (rule cycle_free_child)
    with IH [of "(d, fs)" "f_id c"] u None obtain st'
      where "delete_folder_recursive n (f_id c) (d, fs) = Raised RecursionError st'" by auto
    then show ?thesis by simp
  next
    case (Some e1)
    have d1: "distinct e1" using Some u by (rule deletion_order_distinct(1))
    from delete_folder_recursive_total [OF u Some d1, of fs] obtain d' fs'
      where r1: "delete_folder_recursive n (f_id c) (d, fs) = Returned (d', fs')"
        and m1: "removed e1 d d'" by blast
    from Cons.prems(5) Some have none: "deletion_orders n d cs = None"
      by (auto split: option.splits)
    have u1: "unique_ids d'" using u m1 by (rule removed_unique_ids)
    from m1 have F: "folder d' = filter (\<lambda>f. DelFolder (f_id f) \<notin> set e1) (folder d)"
      and X: "fileitem d' = filter (\<lambda>x. DelFile (x_id x) \<notin> set e1) (fileitem d)"
      by (simp_all add: removed_def)
    from F have sub: "set (folder d') \<subseteq> set (folder d)" by auto
    from cf sub have cf1: "cycle_free d' k" by (rule cycle_free_mono)
    from cf obtain N E where o: "deletion_order N d k = Some E"
      using deletion_order_defined_iff [of d k] by blast
    have disjoint: "\<And>c' h. c' \<in> set cs \<Longrightarrow> in_subtree d (f_id c) h \<Longrightarrow> in_subtree d (f_id c') h \<Longrightarrow> False"
    proof -
      fix c' h assume c': "c' \<in> set cs" and h1: "in_subtree d (f_id c) h" and h2: "in_subtree d (f_id c') h"
      from c' nc have ne: "f_id c \<noteq> f_id c'" by auto
      from c' cs have "c' \<in> set (find_folders d (Some (str k)))" by blast
      from sibling_subtrees_disjoint [OF u o c this ne h1 h2] show False .
    qed
    have cs1: "set cs \<subseteq> set (find_folders d' (Some (str k)))"
    proof
      fix c' assume c': "c' \<in> set cs"
      with cs have in_d: "c' \<in> set (folder d)" "f_parent_id c' = Some (str k)"
        by (auto simp: find_folders_def)
      have "DelFolder (f_id c') \<notin> set e1"
      proof
        assume "DelFolder (f_id c') \<in> set e1"
        from deletion_order_folders(1) [OF Some this] have "in_subtree d (f_id c) (f_id c')" .
        from disjoint [OF c' this in_subtree.root] show False .
      qed
      with in_d F show "c' \<in> set (find_folders d' (Some (str k)))" by (simp add: find_folders_def)
    qed
    have none1: "deletion_orders n d' cs = None"
    proof (cases "deletion_orders n d' cs")
      case None
      then show ?thesis .
    next
      case es: (Some es)
      have kf: "\<forall>f \<in> set (folder d). \<not> DelFolder (f_id f) \<notin> set e1
          \<longrightarrow> (\<forall>p. f_parent_id f = Some (str p) \<longrightarrow> DelFolder p \<notin> set es)"
      proof (intro ballI impI allI notI)
        fix f p assume f: "f \<in> set (folder d)" and rem: "\<not> DelFolder (f_id f) \<notin> set e1"
          and par: "f_parent_id f = Some (str p)" and p: "DelFolder p \<in> set es"
        from rem have "DelFolder (f_id f) \<in> set e1" by simp
        from deletion_order_folders(1) [OF Some this] have h1: "in_subtree d (f_id c) (f_id f)" .
        from deletion_orders_folders [OF es p] obtain c' where c': "c' \<in> set cs"
          and "in_subtree d' (f_id c') p" by blast
        from this(2) sub have "in_subtree d (f_id c') p" by (rule in_subtree_mono)
        from this f par have "in_subtree d (f_id c') (f_id f)" by (rule in_subtree.child)
        from disjoint [OF c' h1 this] show False .
      qed
      have kx: "\<forall>x \<in> set (fileitem d). \<not> DelFile (x_id x) \<notin> set e1
          \<longrightarrow> (\<forall>p. x_parent_id x = Some (str p) \<longrightarrow> DelFolder p \<notin> set es)"
      proof (intro ballI impI allI notI)
        fix x p assume x: "x \<in> set (fileitem d)" and rem: "\<not> DelFile (x_id x) \<notin> set e1"
          and par: "x_parent_id x = Some (str p)" and p: "DelFolder p \<in> set es"
        from rem have "DelFile (x_id x) \<in> set e1" by simp
        from deletion_order_files(1) [OF Some this] obtain x' p' where x': "x' \<in> set (fileitem d)"
          "x_id x' = x_id x" "x_parent_id x' = Some (str p')" "DelFolder p' \<in> set e1" by blast
        from same_file [OF u x'(1) x x'(2)] x'(3) par have "p' = p" by (simp add: str_inject)
        with x'(4) have "DelFolder p \<in> set e1" by simp
        from deletion_order_folders(1) [OF Some this] have h1: "in_subtree d (f_id c) p" .
        from deletion_orders_folders [OF es p] obtain c' where c': "c' \<in> set cs"
          and "in_subtree d' (f_id c') p" by blast
        from this(2) sub have "in_subtree d (f_id c') p" by (rule in_subtree_mono)
        from disjoint [OF c' h1 this] show False .
      qed
      from deletion_order_extend(2) [OF es F X kf kx] none show ?thesis by simp
    qed
    from Cons.IH [OF u1 cf1 cs1 dist none1, of fs'] obtain s'
      where "for_each (\<lambda>sub. delete_folder_recursive n (f_id sub)) cs (d', fs') = Raised RecursionError s'"
      by blast
    with r1 show ?thesis by simp
  qed
qed

lemma deep_raises:
  "unique_ids (fst st) \<Longrightarrow> cycle_free (fst st) k \<Longrightarrow> deletion_order n (fst st) k = None
     \<Longrightarrow> \<exists>st'. delete_folder_recursive n k st = Raised RecursionError st'"
proof (induction n arbitrary: k st)
  case 0
  show ?case by simp
next
  case (Suc n)
  obtain d fs where st: "st = (d, fs)" by (cases st)
  let ?cs = "find_folders d (Some (str k))"
  let ?xs = "find_files d (Some (str k))"
  let ?F = "map (\<lambda>x. DelFile (x_id x)) ?xs"
  from Suc.prems have u: "unique_ids d" and cf: "cycle_free d k"
    and none: "deletion_orders n d ?cs = None"
    by (auto simp: st split: option.splits)
  obtain d1 fs1 where st1: "fold delete_file_inside ?xs (d, fs) = (d1, fs1)"
    by (cases "fold delete_file_inside ?xs (d, fs)")
  from removed_delete_files [OF u, of ?xs fs] st1 have m1: "removed ?F d d1" by simp
  have u1: "unique_ids d1" using u m1 by (rule removed_unique_ids)
  from m1 have F: "folder d1 = filter (\<lambda>f. DelFolder (f_id f) \<notin> set ?F) (folder d)"
    and X: "fileitem d1 = filter (\<lambda>x. DelFile (x_id x) \<notin> set ?F) (fileitem d)"
    by (simp_all add: removed_def)
  from folder_delete_files [of ?xs "(d, fs)"] st1 have f1: "folder d1 = folder d" by simp
  then have c1: "find_folders d1 (Some (str k)) = ?cs" by (simp add: find_folders_def)
  from cf have cf1: "cycle_free d1 k" using cycle_free_folders [OF f1] by simp
  have dist: "distinct (map f_id ?cs)"
    using u by (simp add: unique_ids_def find_folders_def distinct_map_filter)
  have none1: "deletion_orders n d1 ?cs = None"
  proof (cases "deletion_orders n d1 ?cs")
    case None
    then show ?thesis .
  next
    case es: (Some es)
    have kf: "\<forall>f \<in> set (folder d). \<not> DelFolder (f_id f) \<notin> set ?F
        \<longrightarrow> (\<forall>p. f_parent_id f = Some (str p) \<longrightarrow> DelFolder p \<notin> set es)"
      by auto
    have kx: "\<forall>x \<in> set (fileitem d). \<not> DelFile (x_id x) \<notin> set ?F
        \<longrightarrow> (\<forall>p. x_parent_id x = Some (str p) \<longrightarrow> DelFolder p \<notin> set es)"
    proof (intro ballI impI allI notI)
      fix x p assume x: "x \<in> set (fileitem d)" and rem: "\<not> DelFile (x_id x) \<notin> set ?F"
        and par: "x_parent_id x = Some (str p)" and p: "DelFolder p \<in> set es"
      from rem obtain x' where x': "x' \<in> set (fileitem d)" "x_parent_id x' = Some (str k)"
        "x_id x' = x_id x" by (auto simp: find_files_def)
      from same_file [OF u x'(1) x x'(3)] x'(2) par have "p = k" by (simp add: str_inject)
      with deletion_orders_folders [OF es p] obtain c where c: "c \<in> set ?cs"
        and "in_subtree d1 (f_id c) k" by blast
      from this(2) f1 have "in_subtree d (f_id c) k" by (auto intro: in_subtree_mono)
      with cf c in_subtree.root [of d k] show False unfolding cycle_free_def by blast
    qed
    from deletion_order_extend(2) [OF es F X kf kx] none show ?thesis by simp
  qed
  have "set ?cs \<subseteq> set (find_folders d1 (Some (str k)))" by (simp add: c1)
  from for_each_deep [OF Suc.IH u1 cf1 this dist none1, of fs1] obtain s'
    where "for_each (\<lambda>sub. delete_folder_recursive n (f_id sub)) ?cs (d1, fs1) = Raised RecursionError s'"
    by blast
  then show ?case by (simp add: st st1 c1)
qed

text \<open>
  So the recursion returns exactly when the subtree unfolds within the limit, and ends
  in \<^verbatim>\<open>RecursionError\<close> otherwise, be it for a cycle or for the depth of the nesting.
\<close>

lemma delete_folder_recursive_cut:
  assumes "unique_ids d" and "deletion_order n d k = None"
  shows "\<exists>st'. delete_folder_recursive n k (d, fs) = Raised RecursionError st'"
proof (cases "cycle_free d k")
  case True
  with deep_raises [of "(d, fs)" k n] assms show ?thesis by simp
next
  case False
  with cycle_raises [of "(d, fs)" k n] assms show ?thesis by simp
qed

lemma delete_folder_recursive_returns_iff:
  assumes "unique_ids d"
  shows "(\<exists>st'. delete_folder_recursive n k (d, fs) = Returned st') = (\<exists>evs. deletion_order n d k = Some evs)"
proof
  assume "\<exists>st'. delete_folder_recursive n k (d, fs) = Returned st'"
  with delete_folder_recursive_cut [OF assms, of n k fs] show "\<exists>evs. deletion_order n d k = Some evs"
    by (cases "deletion_order n d k") auto
next
  assume "\<exists>evs. deletion_order n d k = Some evs"
  then obtain evs where o: "deletion_order n d k = Some evs" ..
  from o assms have "distinct evs" by (rule deletion_order_distinct(1))
  from delete_folder_recursive_total [OF assms o this, of fs] show "\<exists>st'. delete_folder_recursive n k (d, fs) = Returned st'"
    by blast
qed

subsection \<open>Recursive deletion of a subtree\<close>





subsection \<open>Deleting a folder with a cycle of parent links below it\<close>









end
